theory Spec2Isabelle
  imports Main
begin

section \<open>Shared data: failures, strings, the affinity store\<close>

text \<open>
  A Go panic is a value.  The two run-time panics the modelled code can raise are an
  index outside a slice and the remainder by zero.
\<close>

datatype failure = IndexOutOfRange | DivideByZero

text \<open>\<^verbatim>\<open>xs[i]\<close> of Go with the bounds check written out.\<close>

definition index :: "'a list \<Rightarrow> nat \<Rightarrow> failure + 'a" where
  "index xs i = (if i < length xs then Inr (xs ! i) else Inl IndexOutOfRange)"

text \<open>
  \<^verbatim>\<open>strings.Split(s, "/")\<close> for a one-byte separator: every occurrence cuts, empty pieces
  are kept, and the empty string gives one empty piece.
\<close>

fun Split :: "char \<Rightarrow> string \<Rightarrow> string list" where
  "Split c [] = [[]]"
| "Split c (x # xs) =
     (if x = c then [] # Split c xs
      else (case Split c xs of [] \<Rightarrow> [[x]] | p # ps \<Rightarrow> (x # p) # ps))"

text \<open>\<^verbatim>\<open>strings.SplitN(s, sep, 2)\<close>: cut at the first separator only.\<close>

definition SplitN2 :: "char \<Rightarrow> string \<Rightarrow> string list" where
  "SplitN2 c s =
     (if c \<in> set s then [takeWhile (\<lambda>x. x \<noteq> c) s, tl (dropWhile (\<lambda>x. x \<noteq> c) s)]
      else [s])"

text \<open>\<^verbatim>\<open>strings.TrimPrefix(s, "/")\<close>.\<close>

definition TrimPrefix :: "char \<Rightarrow> string \<Rightarrow> string" where
  "TrimPrefix c s = (case s of [] \<Rightarrow> [] | x # xs \<Rightarrow> if x = c then xs else s)"

text \<open>
  \<^verbatim>\<open>strconv.Atoi\<close>: an optional sign, then one or more decimal digits, within the range of
  a 64-bit \<^verbatim>\<open>int\<close>; anything else is an error (\<open>None\<close>).
\<close>

definition digit :: "char \<Rightarrow> nat option" where
  "digit c =
     (let k = of_char c :: nat in if 48 \<le> k \<and> k \<le> 57 then Some (k - 48) else None)"

fun digits :: "string \<Rightarrow> nat \<Rightarrow> nat option" where
  "digits [] acc = Some acc"
| "digits (c # cs) acc =
     (case digit c of None \<Rightarrow> None | Some d \<Rightarrow> digits cs (10 * acc + d))"

definition Atoi :: "string \<Rightarrow> int option" where
  "Atoi s =
     (case s of
        [] \<Rightarrow> None
      | c # cs \<Rightarrow>
          (let neg = (c = CHR ''-'');
               ds = (if c = CHR ''-'' \<or> c = CHR ''+'' then cs else s)
           in if ds = [] then None
              else (case digits ds 0 of
                      None \<Rightarrow> None
                    | Some m \<Rightarrow>
                        (let v = (if neg then - int m else int m)
                         in if v < - (2 ^ 63) \<or> 2 ^ 63 - 1 < v then None else Some v))))"

text \<open>
  The external key/value store, as the package \<^verbatim>\<open>store\<close> reaches it.  A key holds a
  string or is absent.  \<^verbatim>\<open>redis.String\<close> turns an absent key into the empty string and an
  error; every caller in this repository drops the error (\<^verbatim>\<open>dest, _ := store.Get(...)\<close>), so
  \<open>store_Get\<close> returns the string alone.  Transport failures are outside the model.
\<close>

type_synonym kvstore = "string \<rightharpoonup> string"

definition store_Get :: "kvstore \<Rightarrow> string \<Rightarrow> string" where
  "store_Get st k = (case st k of None \<Rightarrow> [] | Some v \<Rightarrow> v)"

definition store_Set :: "kvstore \<Rightarrow> string \<Rightarrow> string \<Rightarrow> kvstore" where
  "store_Set st k v = st(k \<mapsto> v)"

text \<open>
  \<^verbatim>\<open>Del\<close> runs the script \<^verbatim>\<open>if GET key == value then DEL key; return 1 else return 0\<close>:
  an absent key reads as \<^verbatim>\<open>false\<close>, which equals no string.
\<close>

definition store_Del :: "kvstore \<Rightarrow> string \<Rightarrow> string \<Rightarrow> kvstore" where
  "store_Del st k v = (if st k = Some v then st(k := None) else st)"

text \<open>
  Modelled from the spec: the compare-and-swap that \<^verbatim>\<open>ServeHTTP\<close> calls returns a string,
  and only the variant returning a boolean is among the sources.  The swap condition is the
  one of that variant's script (\<^verbatim>\<open>v==ARGV[1] or v==false and ARGV[1]==''\<close>).  The returned
  string follows section 4.4 of the specification: when the swap fails "the store returns
  the actual current value"; when it succeeds the value now stored, which is what the
  caller's test \<^verbatim>\<open>v == revID.String()\<close> recognises as success.
\<close>

definition store_CAS :: "kvstore \<Rightarrow> string \<Rightarrow> string \<Rightarrow> string \<Rightarrow> kvstore \<times> string" where
  "store_CAS st k expected desired =
     (if st k = Some expected \<or> (st k = None \<and> expected = [])
      then (st(k \<mapsto> desired), desired)
      else (st, store_Get st k))"

section \<open>Requests and the session key (package net)\<close>

text \<open>
  \<^verbatim>\<open>textproto.CanonicalMIMEHeaderKey\<close>, which \<^verbatim>\<open>Header.Get\<close> and \<^verbatim>\<open>Header.Add\<close> apply to
  the name they are given: a name made of token bytes only gets an upper-case letter at
  its start and after each hyphen and lower-case letters elsewhere; any other name is
  left as it is.
\<close>

definition validHeaderFieldByte :: "char \<Rightarrow> bool" where
  "validHeaderFieldByte c =
     (let k = of_char c :: nat
      in (48 \<le> k \<and> k \<le> 57) \<or> (65 \<le> k \<and> k \<le> 90) \<or> (97 \<le> k \<and> k \<le> 122)
         \<or> k \<in> {33, 35, 36, 37, 38, 39, 42, 43, 45, 46, 94, 95, 96, 124, 126})"

definition toUpper :: "char \<Rightarrow> char" where
  "toUpper c = (let k = of_char c :: nat in if 97 \<le> k \<and> k \<le> 122 then char_of (k - 32) else c)"

definition toLower :: "char \<Rightarrow> char" where
  "toLower c = (let k = of_char c :: nat in if 65 \<le> k \<and> k \<le> 90 then char_of (k + 32) else c)"

fun canonicalMIMEHeaderKey :: "bool \<Rightarrow> string \<Rightarrow> string" where
  "canonicalMIMEHeaderKey upper [] = []"
| "canonicalMIMEHeaderKey upper (c # cs) =
     (let c' = (if upper then toUpper c else toLower c)
      in c' # canonicalMIMEHeaderKey (c' = CHR ''-'') cs)"

definition CanonicalMIMEHeaderKey :: "string \<Rightarrow> string" where
  "CanonicalMIMEHeaderKey s =
     (if list_all validHeaderFieldByte s then canonicalMIMEHeaderKey True s else s)"

text \<open>
  A request as far as the session key reads it: the header (a Go map from canonical name
  to values; \<^verbatim>\<open>Header.Get\<close> is the first value under the canonical form of the name, or
  the empty string; \<^verbatim>\<open>Header.Add\<close> appends under the canonical form), the parsed query
  (\<^verbatim>\<open>URL.Query()\<close>, whose \<^verbatim>\<open>Get\<close> takes the name as it is) and the path.
  Annotations are a Go map of strings: a missing key reads as the empty string.
\<close>

record request =
  Header :: "string \<Rightarrow> string list"
  Query :: "string \<Rightarrow> string list"
  Path :: string

definition Header_Get :: "request \<Rightarrow> string \<Rightarrow> string" where
  "Header_Get r k = (case Header r (CanonicalMIMEHeaderKey k) of [] \<Rightarrow> [] | v # _ \<Rightarrow> v)"

definition Header_Add :: "request \<Rightarrow> string \<Rightarrow> string \<Rightarrow> request" where
  "Header_Add r k v =
     r\<lparr>Header := (Header r)(CanonicalMIMEHeaderKey k := Header r (CanonicalMIMEHeaderKey k) @ [v])\<rparr>"

definition Query_Get :: "request \<Rightarrow> string \<Rightarrow> string" where
  "Query_Get r k = (case Query r k of [] \<Rightarrow> [] | v # _ \<Rightarrow> v)"

type_synonym annotations = "string \<rightharpoonup> string"

definition annotation :: "annotations \<Rightarrow> string \<Rightarrow> string" where
  "annotation a k = (case a k of None \<Rightarrow> [] | Some v \<Rightarrow> v)"

text \<open>
  The block that both resolvers repeat for a path-segment annotation \<open>p\<close>:
  \<^verbatim>\<open>if n, err := strconv.Atoi(p); err == nil { parts := ...; if n < len(parts) { return parts[n] } }\<close>.
  \<open>Inr (Some s)\<close> is the \<^verbatim>\<open>return\<close>, \<open>Inr None\<close> is falling out of the block, and a negative
  \<open>n\<close> passes the test \<^verbatim>\<open>n < len(parts)\<close> and panics at \<^verbatim>\<open>parts[n]\<close>.
\<close>

definition path_segment :: "request \<Rightarrow> string \<Rightarrow> failure + string option" where
  "path_segment r p =
     (if p \<noteq> [] then
        (case Atoi p of
           Some n \<Rightarrow>
             (let parts = Split CHR ''/'' (TrimPrefix CHR ''/'' (Path r))
              in if n < int (length parts)
                 then (if n < 0 then Inl IndexOutOfRange else Inr (Some (parts ! nat n)))
                 else Inr None)
         | None \<Rightarrow> Inr None)
      else Inr None)"

text \<open>
  The value that \<^verbatim>\<open>WithRequestAndAnnotations\<close> attaches to the context.  A context is modelled
  by that pair: every policy below is called on a context that carries one.
\<close>

record pair =
  Request :: request
  Annotations :: annotations

definition sessionFrom :: "pair \<Rightarrow> failure + string" where
  "sessionFrom p =
     (let request = Request p; annotations = Annotations p
      in if Header_Get request ''K-Session'' \<noteq> [] then Inr (Header_Get request ''K-Session'')
         else if annotation annotations ''activator.knative.dev/session-header'' \<noteq> []
         then Inr (Header_Get request (annotation annotations ''activator.knative.dev/session-header''))
         else if annotation annotations ''activator.knative.dev/session-query'' \<noteq> []
         then Inr (Query_Get request (annotation annotations ''activator.knative.dev/session-query''))
         else (case path_segment request (annotation annotations ''activator.knative.dev/session-path'') of
                 Inl e \<Rightarrow> Inl e
               | Inr (Some s) \<Rightarrow> Inr s
               | Inr None \<Rightarrow> Inr []))"

section \<open>Backend trackers\<close>

text \<open>
  Modelled from the spec: the type \<^verbatim>\<open>podTracker\<close> and its methods are not among the sources.
  Sections 3 and 4.1 of the specification give a tracker a destination address, a signed
  weight, and a count of outstanding requests bounded by a configured maximum; \<^verbatim>\<open>Reserve\<close>
  claims one unit when the tracker is below its maximum and fails otherwise, and the release
  function it returns gives the unit back.
\<close>

record podTracker =
  dest :: string
  weight :: int
  outstanding :: nat
  capacity :: nat

definition Reserve :: "podTracker \<Rightarrow> podTracker option" where
  "Reserve t = (if outstanding t < capacity t then Some (t\<lparr>outstanding := outstanding t + 1\<rparr>) else None)"

definition release :: "podTracker \<Rightarrow> podTracker" where
  "release t = t\<lparr>outstanding := outstanding t - 1\<rparr>"

definition getWeight :: "podTracker \<Rightarrow> int" where
  "getWeight t = weight t"

definition increaseWeight :: "podTracker \<Rightarrow> podTracker" where
  "increaseWeight t = t\<lparr>weight := weight t + 1\<rparr>"

definition decreaseWeight :: "podTracker \<Rightarrow> podTracker" where
  "decreaseWeight t = t\<lparr>weight := weight t - 1\<rparr>"

text \<open>
  The function a policy returns beside its pick: \<^verbatim>\<open>noop\<close>, the release function of a
  reservation, or \<^verbatim>\<open>pick.decreaseWeight\<close>.  A tracker pointer is its position in the target
  list, which a policy never reorders.
\<close>

datatype callback = noop | cb nat | decreaseWeight_of nat

section \<open>Session lookup and binding (package net)\<close>

text \<open>The loop of \<^verbatim>\<open>getSession\<close>: the first tracker whose destination is \<open>d\<close>.\<close>

fun find_dest :: "string \<Rightarrow> podTracker list \<Rightarrow> nat option" where
  "find_dest d [] = None"
| "find_dest d (t # ts) = (if d = dest t then Some 0 else map_option Suc (find_dest d ts))"

definition getSession :: "pair \<Rightarrow> podTracker list \<Rightarrow> kvstore \<Rightarrow> failure + (nat option \<times> kvstore)" where
  "getSession ctx targets st =
     (case sessionFrom ctx of
        Inl e \<Rightarrow> Inl e
      | Inr session \<Rightarrow>
          if session \<noteq> [] then
            (let d = store_Get st session
             in case (if d \<noteq> [] then find_dest d targets else None) of
                  Some i \<Rightarrow> Inr (Some i, st)
                | None \<Rightarrow> Inr (None, store_Del st session d))
          else Inr (None, st))"

definition setSession :: "pair \<Rightarrow> podTracker \<Rightarrow> kvstore \<Rightarrow> failure + (bool \<times> kvstore)" where
  "setSession ctx pick st =
     (case sessionFrom ctx of
        Inl e \<Rightarrow> Inl e
      | Inr session \<Rightarrow>
          if session \<noteq> [] then
            (let d = store_Get st session
             in if d \<noteq> [] \<and> d \<noteq> dest pick then Inr (False, st)
                else Inr (True, store_Set st session (dest pick)))
          else Inr (True, st))"

section \<open>Load-balancing policies\<close>

text \<open>
  A policy returns the callback, the pick (\<open>None\<close> is Go's \<^verbatim>\<open>nil\<close>), and the trackers and
  the store as the call leaves them.  Each policy is the lookup of \<^verbatim>\<open>getSession\<close> followed by
  the rest of its body, here the function with suffix \<open>_select\<close>.
\<close>

type_synonym selection = "callback \<times> nat option \<times> podTracker list \<times> kvstore"

text \<open>The loop of \<^verbatim>\<open>firstAvailableLBPolicy\<close>, from position \<open>i\<close> of the range.\<close>

function firstAvailable_select :: "pair \<Rightarrow> podTracker list \<Rightarrow> kvstore \<Rightarrow> nat \<Rightarrow> failure + selection" where
  "firstAvailable_select ctx targets st i =
     (if i < length targets then
        (case Reserve (targets ! i) of
           Some t \<Rightarrow>
             (case setSession ctx t st of
                Inl e \<Rightarrow> Inl e
              | Inr (ok, st') \<Rightarrow>
                  if \<not> ok then Inr (noop, None, targets[i := release t], st')
                  else Inr (cb i, Some i, targets[i := t], st'))
         | None \<Rightarrow> firstAvailable_select ctx targets st (i + 1))
      else Inr (noop, None, targets, st))"
  by pat_completeness auto
termination
  by (relation "measure (\<lambda>(ctx, targets, st, i). length targets - i)") auto

declare firstAvailable_select.simps [simp del]

definition firstAvailableLBPolicy :: "pair \<Rightarrow> podTracker list \<Rightarrow> kvstore \<Rightarrow> failure + selection" where
  "firstAvailableLBPolicy ctx targets st =
     (case getSession ctx targets st of
        Inl e \<Rightarrow> Inl e
      | Inr (Some pick, st') \<Rightarrow> Inr (noop, Some pick, targets, st')
      | Inr (None, st') \<Rightarrow> firstAvailable_select ctx targets st' 0)"

text \<open>
  The round-robin policy keeps the cursor \<open>idx\<close> between calls: it is an argument and the
  last component of the result.  \<open>roundRobin_loop\<close> is the \<^verbatim>\<open>for i := 0; i < l; i++\<close> loop.
\<close>

type_synonym rr_selection = "callback \<times> nat option \<times> podTracker list \<times> kvstore \<times> nat"

function roundRobin_loop ::
  "pair \<Rightarrow> podTracker list \<Rightarrow> kvstore \<Rightarrow> nat \<Rightarrow> nat \<Rightarrow> nat \<Rightarrow> failure + rr_selection" where
  "roundRobin_loop ctx targets st idx l i =
     (if i < l then
        (if l = 0 then Inl DivideByZero
         else
           (let p = (idx + i) mod l
            in case index targets p of
                 Inl e \<Rightarrow> Inl e
               | Inr tp \<Rightarrow>
                   (case Reserve tp of
                      Some t \<Rightarrow>
                        (case setSession ctx t st of
                           Inl e \<Rightarrow> Inl e
                         | Inr (ok, st') \<Rightarrow>
                             if \<not> ok then Inr (noop, None, targets[p := release t], st', idx)
                             else Inr (cb p, Some p, targets[p := t], st', p + 1))
                    | None \<Rightarrow> roundRobin_loop ctx targets st idx l (i + 1))))
      else Inr (noop, None, targets, st, idx))"
  by pat_completeness auto
termination
  by (relation "measure (\<lambda>(ctx, targets, st, idx, l, i). l - i)") auto

declare roundRobin_loop.simps [simp del]

definition roundRobin_select :: "pair \<Rightarrow> podTracker list \<Rightarrow> kvstore \<Rightarrow> nat \<Rightarrow> failure + rr_selection" where
  "roundRobin_select ctx targets st idx =
     (let l = length targets;
          idx' = (if idx \<ge> l then 0 else idx)
      in roundRobin_loop ctx targets st idx' l 0)"

definition roundRobinPolicy :: "pair \<Rightarrow> podTracker list \<Rightarrow> kvstore \<Rightarrow> nat \<Rightarrow> failure + rr_selection" where
  "roundRobinPolicy ctx targets st idx =
     (case getSession ctx targets st of
        Inl e \<Rightarrow> Inl e
      | Inr (Some pick, st') \<Rightarrow> Inr (noop, Some pick, targets, st', idx)
      | Inr (None, st') \<Rightarrow> roundRobin_select ctx targets st' idx)"

text \<open>
  Power of two choices.  \<open>d1\<close> and \<open>d2\<close> are what \<^verbatim>\<open>rand.Intn(l)\<close> and \<^verbatim>\<open>rand.Intn(l-1)\<close>
  return when they are called; \<open>draw2\<close> is the choice of the two positions.
\<close>

definition draw2 :: "nat \<Rightarrow> nat \<Rightarrow> nat \<Rightarrow> nat \<times> nat" where
  "draw2 l d1 d2 = (if l > 2 then (d1, if d2 \<ge> d1 then d2 + 1 else d2) else (0, 1))"

definition randomChoice2_select ::
  "nat \<Rightarrow> nat \<Rightarrow> pair \<Rightarrow> podTracker list \<Rightarrow> kvstore \<Rightarrow> failure + selection" where
  "randomChoice2_select d1 d2 ctx targets st =
     (let l = length targets
      in if l = 1 then
           (case index targets 0 of
              Inl e \<Rightarrow> Inl e
            | Inr pick \<Rightarrow>
                (case setSession ctx pick st of
                   Inl e \<Rightarrow> Inl e
                 | Inr (ok, st') \<Rightarrow>
                     if \<not> ok then Inr (noop, None, targets, st')
                     else Inr (decreaseWeight_of 0, Some 0, targets[0 := increaseWeight pick], st')))
         else
           (case draw2 l d1 d2 of
              (r1, r2) \<Rightarrow>
                (case index targets r1 of
                   Inl e \<Rightarrow> Inl e
                 | Inr pick \<Rightarrow>
                     (case index targets r2 of
                        Inl e \<Rightarrow> Inl e
                      | Inr alt \<Rightarrow>
                          (let p = (if getWeight pick > getWeight alt then r2 else r1);
                               pick' = (if getWeight pick > getWeight alt then alt else pick)
                           in case setSession ctx pick' st of
                                Inl e \<Rightarrow> Inl e
                              | Inr (ok, st') \<Rightarrow>
                                  if \<not> ok then Inr (noop, None, targets, st')
                                  else Inr (decreaseWeight_of p, Some p,
                                            targets[p := increaseWeight pick'], st'))))))"

definition randomChoice2Policy ::
  "nat \<Rightarrow> nat \<Rightarrow> pair \<Rightarrow> podTracker list \<Rightarrow> kvstore \<Rightarrow> failure + selection" where
  "randomChoice2Policy d1 d2 ctx targets st =
     (case getSession ctx targets st of
        Inl e \<Rightarrow> Inl e
      | Inr (Some pick, st') \<Rightarrow> Inr (noop, Some pick, targets, st')
      | Inr (None, st') \<Rightarrow> randomChoice2_select d1 d2 ctx targets st')"

text \<open>
  \<open>k\<close> consecutive calls of one round-robin policy with the same context, each on the
  trackers, the store and the cursor the previous call left; the picks are collected in
  call order.
\<close>

fun roundRobin_calls ::
  "nat \<Rightarrow> pair \<Rightarrow> podTracker list \<Rightarrow> kvstore \<Rightarrow> nat
   \<Rightarrow> failure + (nat option list \<times> podTracker list \<times> kvstore \<times> nat)" where
  "roundRobin_calls 0 ctx targets st idx = Inr ([], targets, st, idx)"
| "roundRobin_calls (Suc k) ctx targets st idx =
     (case roundRobinPolicy ctx targets st idx of
        Inl e \<Rightarrow> Inl e
      | Inr (c, pick, targets', st', idx') \<Rightarrow>
          (case roundRobin_calls k ctx targets' st' idx' of
             Inl e \<Rightarrow> Inl e
           | Inr (picks, rest) \<Rightarrow> Inr (pick # picks, rest)))"

section \<open>The session key of the context handler (package handler)\<close>

definition addStickySessionHeader :: "request \<Rightarrow> string \<Rightarrow> request \<times> string" where
  "addStickySessionHeader r session =
     (if session \<noteq> [] then (Header_Add r ''K-Session'' session, session) else (r, session))"

text \<open>
  \<^verbatim>\<open>getSession\<close> of the handler package (the package net has a function of the same name,
  modelled above).  It returns the request, whose header it may extend, beside the key.
\<close>

definition handler_getSession :: "request \<Rightarrow> annotations \<Rightarrow> failure + (request \<times> string)" where
  "handler_getSession r0 a =
     (let r = (if annotation a ''activator.knative.dev/deactivate'' \<noteq> []
               then Header_Add r0 ''K-Deactivate'' (annotation a ''activator.knative.dev/deactivate'')
               else r0)
      in if Header_Get r ''K-Session'' \<noteq> [] then Inr (r, Header_Get r ''K-Session'')
         else if annotation a ''activator.knative.dev/sticky-session-header-name'' \<noteq> []
         then Inr (addStickySessionHeader r
                (Header_Get r (annotation a ''activator.knative.dev/sticky-session-header-name'')))
         else if annotation a ''activator.knative.dev/sticky-session-query-parameter'' \<noteq> []
         then Inr (addStickySessionHeader r
                (Query_Get r (annotation a ''activator.knative.dev/sticky-session-query-parameter'')))
         else
           (case path_segment r (annotation a ''activator.knative.dev/sticky-session-path-segment'') of
              Inl e \<Rightarrow> Inl e
            | Inr (Some s) \<Rightarrow> Inr (addStickySessionHeader r s)
            | Inr None \<Rightarrow>
                if annotation a ''activator.knative.dev/sticky-revision-header-name'' \<noteq> []
                then Inr (r, Header_Get r (annotation a ''activator.knative.dev/sticky-revision-header-name''))
                else if annotation a ''activator.knative.dev/sticky-revision-query-parameter'' \<noteq> []
                then Inr (r, Query_Get r (annotation a ''activator.knative.dev/sticky-revision-query-parameter''))
                else
                  (case path_segment r (annotation a ''activator.knative.dev/sticky-revision-path-segment'') of
                     Inl e \<Rightarrow> Inl e
                   | Inr (Some s) \<Rightarrow> Inr (r, s)
                   | Inr None \<Rightarrow> Inr (r, Header_Get r ''K-Revision''))))"

section \<open>The sticky revision loop of the context handler\<close>

text \<open>
  \<^verbatim>\<open>types.NamespacedName\<close> is a namespace and a name; \<^verbatim>\<open>String()\<close> joins them with
  \<^verbatim>\<open>types.Separator\<close>, the slash.
\<close>

type_synonym NamespacedName = "string \<times> string"

definition NamespacedName_String :: "NamespacedName \<Rightarrow> string" where
  "NamespacedName_String n = fst n @ ''/'' @ snd n"

text \<open>
  The \<^verbatim>\<open>for\<close> loop of \<^verbatim>\<open>ServeHTTP\<close>.  It has no exit but its two \<^verbatim>\<open>break\<close>s, so it is a
  partial function: \<open>None\<close> is a loop that never ends.

  \<^item> \<open>cas\<close> is the compare-and-swap the loop calls (\<open>store_CAS\<close> above);
  \<^item> \<open>others\<close> is what the other clients of the shared store do to it between two calls
    of this loop (\<open>id\<close> when the request is alone);
  \<^item> \<open>lister\<close> is \<^verbatim>\<open>h.revisionLister.Revisions(namespace).Get(name)\<close>, \<open>None\<close> for an error;
  \<^item> \<open>n\<close> counts the calls of \<open>cas\<close> made so far and is returned with the result; the
    source has no such counter.
\<close>

type_synonym 'rev resolved = "NamespacedName \<times> 'rev \<times> kvstore \<times> nat"

partial_function (option) sticky_loop ::
  "(kvstore \<Rightarrow> string \<Rightarrow> string \<Rightarrow> string \<Rightarrow> kvstore \<times> string) \<Rightarrow> (kvstore \<Rightarrow> kvstore)
   \<Rightarrow> (string \<Rightarrow> string \<Rightarrow> 'rev option) \<Rightarrow> string \<Rightarrow> NamespacedName \<Rightarrow> 'rev
   \<Rightarrow> kvstore \<Rightarrow> string \<Rightarrow> nat \<Rightarrow> (failure + 'rev resolved) option" where
  "sticky_loop cas others lister key revID revision st v n =
     (case cas (others st) key v (NamespacedName_String revID) of
        (st', v') \<Rightarrow>
          if v' = NamespacedName_String revID then Some (Inr (revID, revision, st', Suc n))
          else
            (case SplitN2 CHR ''/'' v' of
               namespace # name # _ \<Rightarrow>
                 (case lister namespace name of
                    Some stickyRevision \<Rightarrow> Some (Inr ((namespace, name), stickyRevision, st', Suc n))
                  | None \<Rightarrow> sticky_loop cas others lister key revID revision st' v' (Suc n))
             | _ \<Rightarrow> Some (Inl IndexOutOfRange)))"

text \<open>
  \<^verbatim>\<open>ServeHTTP\<close> from the session key on (the lookups of the revision and the service before
  it are given: \<open>revID\<close>, \<open>revision\<close> and the service's annotations).
\<close>

definition ServeHTTP_sticky ::
  "(kvstore \<Rightarrow> string \<Rightarrow> string \<Rightarrow> string \<Rightarrow> kvstore \<times> string) \<Rightarrow> (kvstore \<Rightarrow> kvstore)
   \<Rightarrow> (string \<Rightarrow> string \<Rightarrow> 'rev option) \<Rightarrow> request \<Rightarrow> annotations \<Rightarrow> NamespacedName \<Rightarrow> 'rev
   \<Rightarrow> kvstore \<Rightarrow> (failure + 'rev resolved) option" where
  "ServeHTTP_sticky cas others lister r a revID revision st =
     (case handler_getSession r a of
        Inl e \<Rightarrow> Some (Inl e)
      | Inr (r', session) \<Rightarrow>
          if session \<noteq> [] then sticky_loop cas others lister (''rev/'' @ session) revID revision st [] 0
          else Some (Inr (revID, revision, st, 0)))"

section \<open>The resolution order, rule by rule\<close>

text \<open>
  The session key resolver as a list of rules tried in order, in the words of the
  specification (section 4.2): a rule either yields a value or does not apply, and the
  first rule that applies wins.  The functions of the source are compared with it below.
\<close>

type_synonym rule = "request \<Rightarrow> annotations \<Rightarrow> string option"

text \<open>The header \<open>h\<close>, if present and non-empty.\<close>

definition explicit_header :: "string \<Rightarrow> rule" where
  "explicit_header h r a = (if Header_Get r h \<noteq> [] then Some (Header_Get r h) else None)"

text \<open>If the annotation \<open>k\<close> configures a header name: the value of that header.\<close>

definition configured_header :: "string \<Rightarrow> rule" where
  "configured_header k r a =
     (if annotation a k \<noteq> [] then Some (Header_Get r (annotation a k)) else None)"

text \<open>If the annotation \<open>k\<close> configures a query parameter: that parameter's value.\<close>

definition configured_query :: "string \<Rightarrow> rule" where
  "configured_query k r a =
     (if annotation a k \<noteq> [] then Some (Query_Get r (annotation a k)) else None)"

text \<open>
  If the annotation \<open>k\<close> configures a path-segment index \<open>n\<close>: the \<open>n\<close>-th slash-delimited
  segment of the path after stripping a leading slash; an index that is not a number or
  is out of range does not apply.
\<close>

definition configured_segment :: "string \<Rightarrow> rule" where
  "configured_segment k r a =
     (case Atoi (annotation a k) of
        None \<Rightarrow> None
      | Some n \<Rightarrow>
          (let parts = Split CHR ''/'' (TrimPrefix CHR ''/'' (Path r))
           in if 0 \<le> n \<and> n < int (length parts) then Some (parts ! nat n) else None))"

fun first_match :: "rule list \<Rightarrow> rule" where
  "first_match [] r a = None"
| "first_match (f # fs) r a = (case f r a of Some v \<Rightarrow> Some v | None \<Rightarrow> first_match fs r a)"

text \<open>The index an annotation configures is not negative (or the annotation is no number).\<close>

definition index_not_negative :: "annotations \<Rightarrow> string \<Rightarrow> bool" where
  "index_not_negative a k = (case Atoi (annotation a k) of None \<Rightarrow> True | Some n \<Rightarrow> 0 \<le> n)"

text \<open>The request once the \<^verbatim>\<open>deactivate\<close> annotation has been copied to its header.\<close>

definition with_deactivate :: "request \<Rightarrow> annotations \<Rightarrow> request" where
  "with_deactivate r a =
     (if annotation a ''activator.knative.dev/deactivate'' \<noteq> []
      then Header_Add r ''K-Deactivate'' (annotation a ''activator.knative.dev/deactivate'')
      else r)"

section \<open>Two requests at once\<close>

text \<open>
  \<^verbatim>\<open>firstAvailableLBPolicy\<close> cut at its store operations, so that the calls of two
  requests can be interleaved.  Each store operation is atomic at the store and is a step
  of its own; the scan of the trackers, which touches no store, is one step as well (a
  schedule of these steps is also a schedule of the single \<^verbatim>\<open>Reserve\<close> calls).  A step is:
  \<^item> \<open>AtLookup\<close>: \<^verbatim>\<open>store.Get\<close> of \<^verbatim>\<open>getSession\<close> and the search for the tracker;
  \<^item> \<open>AtDelete d\<close>: \<^verbatim>\<open>store.Del\<close> of \<^verbatim>\<open>getSession\<close> with the value \<open>d\<close> it had read;
  \<^item> \<open>AtScan\<close>: the range loop up to the first \<^verbatim>\<open>Reserve\<close> that succeeds;
  \<^item> \<open>AtCheck i\<close>: \<^verbatim>\<open>store.Get\<close> of \<^verbatim>\<open>setSession\<close> for the reserved tracker \<open>i\<close>, its test, and
    the release when the test fails;
  \<^item> \<open>AtWrite i\<close>: \<^verbatim>\<open>store.Set\<close> of \<^verbatim>\<open>setSession\<close>;
  \<^item> \<open>Returned c pick\<close> and \<open>Panicked e\<close>: the call is over.
\<close>

datatype pc =
    AtLookup
  | AtDelete string
  | AtScan
  | AtCheck nat
  | AtWrite nat
  | Returned callback "nat option"
  | Panicked failure

type_synonym world = "podTracker list \<times> kvstore"

fun first_free :: "podTracker list \<Rightarrow> nat option" where
  "first_free [] = None"
| "first_free (t # ts) =
     (if outstanding t < capacity t then Some 0 else map_option Suc (first_free ts))"

fun firstAvailable_step :: "pair \<Rightarrow> pc \<Rightarrow> world \<Rightarrow> pc \<times> world" where
  "firstAvailable_step ctx AtLookup (targets, st) =
     (case sessionFrom ctx of
        Inl e \<Rightarrow> (Panicked e, targets, st)
      | Inr session \<Rightarrow>
          if session \<noteq> [] then
            (let d = store_Get st session
             in case (if d \<noteq> [] then find_dest d targets else None) of
                  Some i \<Rightarrow> (Returned noop (Some i), targets, st)
                | None \<Rightarrow> (AtDelete d, targets, st))
          else (AtScan, targets, st))"
| "firstAvailable_step ctx (AtDelete d) (targets, st) =
     (case sessionFrom ctx of
        Inl e \<Rightarrow> (Panicked e, targets, st)
      | Inr session \<Rightarrow> (AtScan, targets, store_Del st session d))"
| "firstAvailable_step ctx AtScan (targets, st) =
     (case first_free targets of
        None \<Rightarrow> (Returned noop None, targets, st)
      | Some i \<Rightarrow> (AtCheck i, targets[i := (targets ! i)\<lparr>outstanding := outstanding (targets ! i) + 1\<rparr>], st))"
| "firstAvailable_step ctx (AtCheck i) (targets, st) =
     (case sessionFrom ctx of
        Inl e \<Rightarrow> (Panicked e, targets, st)
      | Inr session \<Rightarrow>
          if session \<noteq> [] then
            (let d = store_Get st session
             in if d \<noteq> [] \<and> d \<noteq> dest (targets ! i)
                then (Returned noop None, targets[i := release (targets ! i)], st)
                else (AtWrite i, targets, st))
          else (Returned (cb i) (Some i), targets, st))"
| "firstAvailable_step ctx (AtWrite i) (targets, st) =
     (case sessionFrom ctx of
        Inl e \<Rightarrow> (Panicked e, targets, st)
      | Inr session \<Rightarrow> (Returned (cb i) (Some i), targets, store_Set st session (dest (targets ! i))))"
| "firstAvailable_step ctx (Returned c pick) w = (Returned c pick, w)"
| "firstAvailable_step ctx (Panicked e) w = (Panicked e, w)"

text \<open>One request alone: \<open>k\<close> steps in a row.\<close>

fun firstAvailable_steps :: "nat \<Rightarrow> pair \<Rightarrow> pc \<times> world \<Rightarrow> pc \<times> world" where
  "firstAvailable_steps 0 ctx s = s"
| "firstAvailable_steps (Suc k) ctx (p, w) = firstAvailable_steps k ctx (firstAvailable_step ctx p w)"

text \<open>
  Two requests on the same trackers and the same store.  The schedule says which request
  takes the next step: \<open>True\<close> the first, \<open>False\<close> the second.
\<close>

fun interleave :: "pair \<Rightarrow> pair \<Rightarrow> bool list \<Rightarrow> pc \<times> pc \<times> world \<Rightarrow> pc \<times> pc \<times> world" where
  "interleave ctx1 ctx2 [] s = s"
| "interleave ctx1 ctx2 (True # sched) (p1, p2, w) =
     (case firstAvailable_step ctx1 p1 w of (p1', w') \<Rightarrow> interleave ctx1 ctx2 sched (p1', p2, w'))"
| "interleave ctx1 ctx2 (False # sched) (p1, p2, w) =
     (case firstAvailable_step ctx2 p2 w of (p2', w') \<Rightarrow> interleave ctx1 ctx2 sched (p1, p2', w'))"

section \<open>Example inputs\<close>

text \<open>Concrete requests, contexts and trackers on which the theorems below are instantiated.\<close>

definition plain_request :: request where
  "plain_request = \<lparr>Header = (\<lambda>k. []), Query = (\<lambda>k. []), Path = ''/a/b''\<rparr>"

definition session_request :: "string \<Rightarrow> request" where
  "session_request s =
     \<lparr>Header = (\<lambda>k. if k = ''K-Session'' then [s] else []), Query = (\<lambda>k. []), Path = ''/a/b''\<rparr>"

definition context_of :: "request \<Rightarrow> pair" where
  "context_of r = \<lparr>Request = r, Annotations = Map.empty\<rparr>"

text \<open>A context whose annotations configure the path segment \<open>-1\<close>.\<close>

definition negative_path_context :: pair where
  "negative_path_context =
     \<lparr>Request = plain_request, Annotations = [''activator.knative.dev/session-path'' \<mapsto> ''-1'']\<rparr>"

definition backend :: "string \<Rightarrow> int \<Rightarrow> nat \<Rightarrow> nat \<Rightarrow> podTracker" where
  "backend d w used cap = \<lparr>dest = d, weight = w, outstanding = used, capacity = cap\<rparr>"

text \<open>Two trackers: the first free, the second at its maximum.\<close>

definition two_backends :: "podTracker list" where
  "two_backends = [backend ''10.0.0.1'' 0 0 1, backend ''10.0.0.2'' 0 1 1]"

text \<open>Three trackers with weights 3, 1 and 1.\<close>

definition three_weighted :: "podTracker list" where
  "three_weighted = [backend ''10.0.0.1'' 3 0 0, backend ''10.0.0.2'' 1 0 0, backend ''10.0.0.3'' 1 0 0]"

text \<open>Three trackers with room for five requests each, and none outstanding.\<close>

definition three_free :: "podTracker list" where
  "three_free = [backend ''10.0.0.1'' 0 0 5, backend ''10.0.0.2'' 0 0 5, backend ''10.0.0.3'' 0 0 5]"

text \<open>Two free trackers, each with room for one request.\<close>

definition two_single :: "podTracker list" where
  "two_single = [backend ''10.0.0.1'' 0 0 1, backend ''10.0.0.2'' 0 0 1]"

text \<open>
  A request with a revision header named by an annotation and the header \<^verbatim>\<open>K-Revision\<close>,
  and a request that offers a key by every rule at once.
\<close>

definition revision_request :: request where
  "revision_request =
     \<lparr>Header = (\<lambda>k. if k = ''X-Rev'' then [''r1''] else if k = ''K-Revision'' then [''r2''] else []),
      Query = (\<lambda>k. []), Path = ''/a/b''\<rparr>"

definition revision_annotations :: annotations where
  "revision_annotations = [''activator.knative.dev/sticky-revision-header-name'' \<mapsto> ''X-Rev'']"

definition crowded_request :: request where
  "crowded_request =
     \<lparr>Header = (\<lambda>k. if k = ''X-S'' then [''h1''] else if k = ''K-Revision'' then [''r2''] else []),
      Query = (\<lambda>k. if k = ''sid'' then [''q1''] else []), Path = ''/a/b''\<rparr>"

definition crowded_annotations :: annotations where
  "crowded_annotations =
     [''activator.knative.dev/sticky-session-header-name'' \<mapsto> ''X-S'',
      ''activator.knative.dev/sticky-session-query-parameter'' \<mapsto> ''sid'',
      ''activator.knative.dev/sticky-session-path-segment'' \<mapsto> ''1'']"

definition segment_annotations :: "string \<Rightarrow> annotations" where
  "segment_annotations n = [''activator.knative.dev/sticky-session-path-segment'' \<mapsto> n]"

text \<open>
  Revision listers (a revision object is represented by a string here): one that knows no
  revision, and one that knows \<open>default/rev-2\<close>.  \<open>churn\<close> is another client that, between
  two calls of the loop, rewrites the key \<open>rev/abc\<close> to the identity of a revision that no
  longer exists, alternating between two of them.
\<close>

definition no_revisions :: "string \<Rightarrow> string \<Rightarrow> string option" where
  "no_revisions namespace name = None"

definition one_revision :: "string \<Rightarrow> string \<Rightarrow> string option" where
  "one_revision namespace name =
     (if namespace = ''default'' \<and> name = ''rev-2'' then Some ''revision-2'' else None)"

definition churn :: "kvstore \<Rightarrow> kvstore" where
  "churn st =
     st(''rev/abc'' \<mapsto>
          (if st ''rev/abc'' = Some ''default/gone-1'' then ''default/gone-2'' else ''default/gone-1''))"

section \<open>Lookup, binding and reservation\<close>

text \<open>The header names used below are in canonical form; a name in lower case reads the same header.\<close>

lemma canonical_names [simp]:
  "CanonicalMIMEHeaderKey ''K-Session'' = ''K-Session''"
  "CanonicalMIMEHeaderKey ''K-Deactivate'' = ''K-Deactivate''"
  "CanonicalMIMEHeaderKey ''K-Revision'' = ''K-Revision''"
  "CanonicalMIMEHeaderKey ''X-Rev'' = ''X-Rev''"
  "CanonicalMIMEHeaderKey ''X-S'' = ''X-S''"
  by code_simp+

lemma Header_Get_lower_case: "Header_Get (session_request ''abc'') ''k-session'' = ''abc''"
proof -
  have "CanonicalMIMEHeaderKey ''k-session'' = ''K-Session''" by code_simp
  then show ?thesis by (simp add: Header_Get_def session_request_def)
qed

lemma sessionFrom_plain: "sessionFrom (context_of plain_request) = Inr []"
  by (simp add: sessionFrom_def context_of_def plain_request_def Header_Get_def annotation_def
      path_segment_def)

lemma sessionFrom_session: "s \<noteq> [] \<Longrightarrow> sessionFrom (context_of (session_request s)) = Inr s"
  by (simp add: sessionFrom_def context_of_def session_request_def Header_Get_def)

lemma find_dest_Some:
  "find_dest d ts = Some i \<longleftrightarrow> i < length ts \<and> dest (ts ! i) = d \<and> (\<forall>j<i. dest (ts ! j) \<noteq> d)"
proof (induction ts arbitrary: i)
  case Nil
  show ?case by simp
next
  case (Cons t ts)
  show ?case
  proof (cases "d = dest t")
    case True
    then show ?thesis by (cases i) auto
  next
    case False
    show ?thesis
    proof (cases i)
      case 0
      with False show ?thesis by auto
    next
      case (Suc k)
      have "(\<forall>j<Suc k. dest ((t # ts) ! j) \<noteq> d) \<longleftrightarrow> (\<forall>j<k. dest (ts ! j) \<noteq> d)"
        using False by (auto simp: less_Suc_eq_0_disj)
      with False Suc Cons.IH [of k] show ?thesis by auto
    qed
  qed
qed

lemma find_dest_None: "find_dest d ts = None \<longleftrightarrow> (\<forall>t\<in>set ts. dest t \<noteq> d)"
  by (induction ts) auto

lemma getSession_unbound:
  "sessionFrom ctx = Inr s \<Longrightarrow> s = [] \<or> store_Get st s = [] \<Longrightarrow>
   getSession ctx targets st = Inr (None, if s = [] then st else store_Del st s [])"
  by (auto simp: getSession_def Let_def)

lemma getSession_hit:
  "sessionFrom ctx = Inr s \<Longrightarrow> s \<noteq> [] \<Longrightarrow> store_Get st s \<noteq> [] \<Longrightarrow>
   find_dest (store_Get st s) targets = Some i \<Longrightarrow>
   getSession ctx targets st = Inr (Some i, st)"
  by (simp add: getSession_def Let_def)

lemma getSession_miss:
  "sessionFrom ctx = Inr s \<Longrightarrow> s \<noteq> [] \<Longrightarrow>
   find_dest (store_Get st s) targets = None \<Longrightarrow>
   getSession ctx targets st = Inr (None, store_Del st s (store_Get st s))"
  by (simp add: getSession_def Let_def)

lemma setSession_ok:
  "sessionFrom ctx = Inr s \<Longrightarrow> s = [] \<or> store_Get st s = [] \<or> store_Get st s = dest t \<Longrightarrow>
   setSession ctx t st = Inr (True, if s = [] then st else store_Set st s (dest t))"
  by (auto simp: setSession_def Let_def)

lemma setSession_conflict:
  "sessionFrom ctx = Inr s \<Longrightarrow> s \<noteq> [] \<Longrightarrow> store_Get st s \<noteq> [] \<Longrightarrow> store_Get st s \<noteq> dest t \<Longrightarrow>
   setSession ctx t st = Inr (False, st)"
  by (simp add: setSession_def Let_def)

lemma Reserve_None: "Reserve t = None \<longleftrightarrow> \<not> outstanding t < capacity t"
  by (simp add: Reserve_def)

lemma Reserve_Some: "outstanding t < capacity t \<Longrightarrow> Reserve t = Some (t\<lparr>outstanding := outstanding t + 1\<rparr>)"
  by (simp add: Reserve_def)

lemma release_Reserve:
  "release (t\<lparr>outstanding := outstanding t + 1\<rparr>) = t"
  "release (t\<lparr>outstanding := Suc (outstanding t)\<rparr>) = t"
  by (simp_all add: release_def)

lemma firstAvailable_select_skip:
  "i \<le> k \<Longrightarrow> k \<le> length targets \<Longrightarrow> (\<forall>j. i \<le> j \<and> j < k \<longrightarrow> \<not> outstanding (targets ! j) < capacity (targets ! j)) \<Longrightarrow>
   firstAvailable_select ctx targets st i = firstAvailable_select ctx targets st k"
proof (induction "k - i" arbitrary: i)
  case 0
  then show ?case by simp
next
  case (Suc m)
  then have "i < k" "i < length targets" by auto
  moreover have "Reserve (targets ! i) = None"
    using Suc.prems \<open>i < k\<close> by (simp add: Reserve_None)
  ultimately have "firstAvailable_select ctx targets st i = firstAvailable_select ctx targets st (i + 1)"
    by (subst firstAvailable_select.simps) simp
  also have "\<dots> = firstAvailable_select ctx targets st k"
    using Suc.hyps Suc.prems \<open>i < k\<close> by (intro Suc.hyps(1)) auto
  finally show ?case .
qed

lemma firstAvailable_select_none:
  "(\<forall>t\<in>set targets. \<not> outstanding t < capacity t) \<Longrightarrow>
   firstAvailable_select ctx targets st 0 = Inr (noop, None, targets, st)"
proof -
  assume a: "\<forall>t\<in>set targets. \<not> outstanding t < capacity t"
  have "firstAvailable_select ctx targets st 0 = firstAvailable_select ctx targets st (length targets)"
    using a by (intro firstAvailable_select_skip) auto
  also have "\<dots> = Inr (noop, None, targets, st)"
    by (subst firstAvailable_select.simps) simp
  finally show ?thesis .
qed

lemma firstAvailable_select_at:
  assumes "i < length targets" "outstanding (targets ! i) < capacity (targets ! i)"
    and "\<forall>j<i. \<not> outstanding (targets ! j) < capacity (targets ! j)"
  shows "firstAvailable_select ctx targets st 0 =
     (case setSession ctx ((targets ! i)\<lparr>outstanding := outstanding (targets ! i) + 1\<rparr>) st of
        Inl e \<Rightarrow> Inl e
      | Inr (ok, st') \<Rightarrow>
          if \<not> ok then Inr (noop, None, targets, st')
          else Inr (cb i, Some i, targets[i := (targets ! i)\<lparr>outstanding := outstanding (targets ! i) + 1\<rparr>], st'))"
    (is "_ = ?rhs")
proof -
  have "firstAvailable_select ctx targets st 0 = firstAvailable_select ctx targets st i"
    using assms by (intro firstAvailable_select_skip) auto
  also have "\<dots> = ?rhs"
    using assms(1,2)
    by (subst firstAvailable_select.simps) (simp add: Reserve_Some release_Reserve split: sum.splits)
  finally show ?thesis .
qed

section \<open>Empty target set\<close>

lemma getSession_empty:
  "sessionFrom ctx = Inr s \<Longrightarrow>
   getSession ctx [] st = Inr (None, if s = [] then st else store_Del st s (store_Get st s))"
  by (simp add: getSession_def Let_def)

text \<open>
  On an empty target set, for a request whose session key resolves (to \<open>s\<close>, bound or
  not), \<^verbatim>\<open>firstAvailableLBPolicy\<close> and the round-robin policy return the no-op callback
  and no tracker, and the round-robin cursor is 0 afterwards.  The lookup that precedes the
  selection leaves the store as \<^verbatim>\<open>getSession\<close> does: a key that is present has its binding
  deleted.
\<close>

lemma empty_targets_resolved_key:
  assumes "sessionFrom ctx = Inr s"
  shows "firstAvailableLBPolicy ctx [] st
           = Inr (noop, None, [], if s = [] then st else store_Del st s (store_Get st s))
       \<and> roundRobinPolicy ctx [] st idx
           = Inr (noop, None, [], if s = [] then st else store_Del st s (store_Get st s), 0)"
  using assms
  by (simp add: firstAvailableLBPolicy_def roundRobinPolicy_def roundRobin_select_def
      getSession_empty firstAvailable_select.simps roundRobin_loop.simps)

text \<open>
  C10 against the code.  The target set is empty, the request has no session header and
  nothing is bound in the store, and the annotation \<^verbatim>\<open>activator.knative.dev/session-path\<close>
  is \<open>-1\<close>.  Both policies first resolve the session key; \<^verbatim>\<open>sessionFrom\<close> tests only
  \<^verbatim>\<open>n < len(parts)\<close>, reads \<^verbatim>\<open>parts[-1]\<close> and panics with an index out of range, so neither
  policy returns "no target".  With a resolved key they do (\<open>empty_targets_resolved_key\<close>).
\<close>

theorem empty_targets_negative_index_panics:
  "sessionFrom negative_path_context = Inl IndexOutOfRange
   \<and> firstAvailableLBPolicy negative_path_context [] Map.empty = Inl IndexOutOfRange
   \<and> roundRobinPolicy negative_path_context [] Map.empty 0 = Inl IndexOutOfRange"
proof -
  have "sessionFrom negative_path_context = Inl IndexOutOfRange"
    by (simp add: sessionFrom_def negative_path_context_def plain_request_def Header_Get_def
        annotation_def path_segment_def Atoi_def digit_def TrimPrefix_def)
  then show ?thesis
    by (simp add: firstAvailableLBPolicy_def roundRobinPolicy_def getSession_def)
qed

section \<open>The round-robin scan\<close>

lemma cyclic_position_less: "i < n \<Longrightarrow> (c + i) mod n < (n::nat)"
  by (rule mod_less_divisor) (rule le_less_trans [of 0 i], simp_all)

lemma roundRobin_loop_skip:
  "i \<le> k \<Longrightarrow> k \<le> l \<Longrightarrow>
   (\<forall>j. i \<le> j \<and> j < k \<longrightarrow> \<not> outstanding (targets ! ((c + j) mod l)) < capacity (targets ! ((c + j) mod l))) \<Longrightarrow>
   l = length targets \<Longrightarrow>
   roundRobin_loop ctx targets st c l i = roundRobin_loop ctx targets st c l k"
proof (induction "k - i" arbitrary: i)
  case 0
  then show ?case by simp
next
  case (Suc m)
  then have lt: "i < k" "i < l" "l \<noteq> 0" by auto
  then have "(c + i) mod l < length targets"
    using Suc.prems(4) by simp
  moreover have "Reserve (targets ! ((c + i) mod l)) = None"
    using Suc.prems lt by (simp add: Reserve_None)
  ultimately have "roundRobin_loop ctx targets st c l i = roundRobin_loop ctx targets st c l (i + 1)"
    using lt by (subst roundRobin_loop.simps) (simp add: index_def)
  also have "\<dots> = roundRobin_loop ctx targets st c l k"
    using Suc.hyps Suc.prems lt by (intro Suc.hyps(1)) auto
  finally show ?case .
qed

lemma roundRobin_loop_none:
  assumes "\<forall>t\<in>set targets. \<not> outstanding t < capacity t"
  shows "roundRobin_loop ctx targets st c (length targets) 0 = Inr (noop, None, targets, st, c)"
proof -
  have "roundRobin_loop ctx targets st c (length targets) 0
        = roundRobin_loop ctx targets st c (length targets) (length targets)"
  proof (rule roundRobin_loop_skip)
    show "\<forall>j. 0 \<le> j \<and> j < length targets \<longrightarrow>
       \<not> outstanding (targets ! ((c + j) mod length targets)) < capacity (targets ! ((c + j) mod length targets))"
    proof (intro allI impI)
      fix j assume j: "0 \<le> j \<and> j < length targets"
      then have "(c + j) mod length targets < length targets" by (simp add: cyclic_position_less)
      then have "targets ! ((c + j) mod length targets) \<in> set targets" by (rule nth_mem)
      with assms show "\<not> outstanding (targets ! ((c + j) mod length targets)) < capacity (targets ! ((c + j) mod length targets))"
        by blast
    qed
  qed simp_all
  also have "\<dots> = Inr (noop, None, targets, st, c)"
    by (subst roundRobin_loop.simps) simp
  finally show ?thesis .
qed

lemma roundRobin_loop_at:
  assumes "i < length targets" and "p = (c + i) mod length targets"
    and "outstanding (targets ! p) < capacity (targets ! p)"
    and "\<forall>j<i. \<not> outstanding (targets ! ((c + j) mod length targets)) < capacity (targets ! ((c + j) mod length targets))"
  shows "roundRobin_loop ctx targets st c (length targets) 0 =
     (case setSession ctx ((targets ! p)\<lparr>outstanding := outstanding (targets ! p) + 1\<rparr>) st of
        Inl e \<Rightarrow> Inl e
      | Inr (ok, st') \<Rightarrow>
          if \<not> ok then Inr (noop, None, targets, st', c)
          else Inr (cb p, Some p, targets[p := (targets ! p)\<lparr>outstanding := outstanding (targets ! p) + 1\<rparr>], st', p + 1))"
    (is "_ = ?rhs")
proof -
  have pl: "p < length targets" using assms(1,2) by (simp add: cyclic_position_less)
  have "roundRobin_loop ctx targets st c (length targets) 0
        = roundRobin_loop ctx targets st c (length targets) i"
    using assms by (intro roundRobin_loop_skip) auto
  also have "\<dots> = ?rhs"
  proof -
    have ne: "length targets \<noteq> 0" using assms(1) by auto
    have r: "Reserve (targets ! p) = Some ((targets ! p)\<lparr>outstanding := outstanding (targets ! p) + 1\<rparr>)"
      using assms(3) by (rule Reserve_Some)
    show ?thesis
      using assms(1) pl ne r unfolding assms(2)
      by (subst roundRobin_loop.simps)
         (simp add: index_def release_Reserve Let_def split: sum.splits)
  qed
  finally show ?thesis .
qed

section \<open>A bound session\<close>

lemma store_Del_bound: "store_Get st s = d \<Longrightarrow> d \<noteq> [] \<Longrightarrow> store_Del st s d = st(s := None)"
  by (auto simp: store_Del_def store_Get_def split: option.splits)

text \<open>
  C4.  The request has a session key \<open>s\<close> and the store binds it to a destination \<open>d\<close>.
  If a tracker of the target set has destination \<open>d\<close> (the first such, at position \<open>i\<close>),
  each of the three policies returns it with the no-op callback and leaves the trackers
  (no reservation, no weight change), the store and the round-robin cursor as they were.
  If no tracker has destination \<open>d\<close>, the binding is deleted (the conditional delete
  with the observed value removes the key) and the policy's result is that of its selection
  algorithm run on the store without the binding.
\<close>

theorem bound_session_lookup:
  assumes "sessionFrom ctx = Inr s" and "s \<noteq> []" and "store_Get st s = d" and "d \<noteq> []"
  shows "(\<forall>i. i < length targets \<and> dest (targets ! i) = d \<and> (\<forall>j<i. dest (targets ! j) \<noteq> d) \<longrightarrow>
            firstAvailableLBPolicy ctx targets st = Inr (noop, Some i, targets, st)
          \<and> roundRobinPolicy ctx targets st idx = Inr (noop, Some i, targets, st, idx)
          \<and> randomChoice2Policy d1 d2 ctx targets st = Inr (noop, Some i, targets, st))
       \<and> ((\<forall>t\<in>set targets. dest t \<noteq> d) \<longrightarrow>
            store_Del st s d = st(s := None)
          \<and> firstAvailableLBPolicy ctx targets st = firstAvailable_select ctx targets (st(s := None)) 0
          \<and> roundRobinPolicy ctx targets st idx = roundRobin_select ctx targets (st(s := None)) idx
          \<and> randomChoice2Policy d1 d2 ctx targets st
              = randomChoice2_select d1 d2 ctx targets (st(s := None)))"
proof (intro conjI allI impI)
  fix i
  assume "i < length targets \<and> dest (targets ! i) = d \<and> (\<forall>j<i. dest (targets ! j) \<noteq> d)"
  then have "find_dest (store_Get st s) targets = Some i"
    using assms(3) by (simp add: find_dest_Some)
  then have g: "getSession ctx targets st = Inr (Some i, st)"
    using assms by (intro getSession_hit) auto
  show "firstAvailableLBPolicy ctx targets st = Inr (noop, Some i, targets, st)"
    by (simp add: firstAvailableLBPolicy_def g)
  show "roundRobinPolicy ctx targets st idx = Inr (noop, Some i, targets, st, idx)"
    by (simp add: roundRobinPolicy_def g)
  show "randomChoice2Policy d1 d2 ctx targets st = Inr (noop, Some i, targets, st)"
    by (simp add: randomChoice2Policy_def g)
next
  assume "\<forall>t\<in>set targets. dest t \<noteq> d"
  then have "find_dest (store_Get st s) targets = None"
    using assms(3) by (simp add: find_dest_None)
  then have "getSession ctx targets st = Inr (None, store_Del st s (store_Get st s))"
    using assms by (intro getSession_miss) auto
  moreover show del: "store_Del st s d = st(s := None)"
    using assms(3,4) by (rule store_Del_bound)
  ultimately have g: "getSession ctx targets st = Inr (None, st(s := None))"
    using assms(3) by simp
  show "firstAvailableLBPolicy ctx targets st = firstAvailable_select ctx targets (st(s := None)) 0"
    by (simp add: firstAvailableLBPolicy_def g)
  show "roundRobinPolicy ctx targets st idx = roundRobin_select ctx targets (st(s := None)) idx"
    by (simp add: roundRobinPolicy_def g)
  show "randomChoice2Policy d1 d2 ctx targets st = randomChoice2_select d1 d2 ctx targets (st(s := None))"
    by (simp add: randomChoice2Policy_def g)
qed

lemma two_backends_simps:
  "length two_backends = 2"
  "two_backends ! 0 = backend ''10.0.0.1'' 0 0 1"
  "two_backends ! Suc 0 = backend ''10.0.0.2'' 0 1 1"
  "set two_backends = {backend ''10.0.0.1'' 0 0 1, backend ''10.0.0.2'' 0 1 1}"
  by (auto simp: two_backends_def)

theorem bound_session_lookup_witness:
  "firstAvailableLBPolicy (context_of (session_request ''abc'')) two_backends [''abc'' \<mapsto> ''10.0.0.2'']
     = Inr (noop, Some 1, two_backends, [''abc'' \<mapsto> ''10.0.0.2''])
   \<and> roundRobinPolicy (context_of (session_request ''abc'')) two_backends [''abc'' \<mapsto> ''10.0.0.2''] 0
     = Inr (noop, Some 1, two_backends, [''abc'' \<mapsto> ''10.0.0.2''], 0)
   \<and> randomChoice2Policy 0 0 (context_of (session_request ''abc'')) two_backends [''abc'' \<mapsto> ''10.0.0.2'']
     = Inr (noop, Some 1, two_backends, [''abc'' \<mapsto> ''10.0.0.2''])
   \<and> firstAvailableLBPolicy (context_of (session_request ''abc'')) two_backends [''abc'' \<mapsto> ''10.0.0.9'']
     = firstAvailable_select (context_of (session_request ''abc'')) two_backends Map.empty 0"
proof -
  have s: "sessionFrom (context_of (session_request ''abc'')) = Inr ''abc''"
    by (rule sessionFrom_session) simp
  have hit: "store_Get [''abc'' \<mapsto> ''10.0.0.2''] ''abc'' = ''10.0.0.2''"
    and stale: "store_Get [''abc'' \<mapsto> ''10.0.0.9''] ''abc'' = ''10.0.0.9''"
    by (simp_all add: store_Get_def)
  have pos: "(1::nat) < length two_backends \<and> dest (two_backends ! 1) = ''10.0.0.2''
      \<and> (\<forall>j<1. dest (two_backends ! j) \<noteq> ''10.0.0.2'')"
    by (simp add: two_backends_simps backend_def)
  have none: "\<forall>t\<in>set two_backends. dest t \<noteq> ''10.0.0.9''"
    by (simp add: two_backends_simps backend_def)
  show ?thesis
    using bound_session_lookup [OF s _ hit, of two_backends 0 0 0] pos
      bound_session_lookup [OF s _ stale, of two_backends 0 0 0] none
    by simp
qed

section \<open>A binding that differs from the candidate\<close>

text \<open>
  C5.  The request has a session key \<open>s\<close>, and when the selection reaches the point of
  establishing the binding the store holds for \<open>s\<close> a destination \<open>d\<close> other than the
  candidate's (the store at that point is the argument of the \<open>_select\<close> functions: the
  store the lookup left, with whatever other requests wrote since).  Then every
  capacity-aware selection returns the no-op callback and no tracker, and the trackers are
  as before the call: first-available and round-robin have released the reservation they
  took on the candidate, power-of-two-choices has not changed a weight.  The store is
  unchanged, and the round-robin cursor is the (wrapped) cursor, not advanced.  The
  candidate is the first tracker with capacity in scan order (first-available,
  round-robin), the sole tracker or the lighter of the two drawn (power of two choices).
\<close>

theorem binding_conflict_aborts:
  assumes "sessionFrom ctx = Inr s" and "s \<noteq> []" and "store_Get st s = d" and "d \<noteq> []"
  shows "(\<forall>i. i < length targets \<and> outstanding (targets ! i) < capacity (targets ! i)
              \<and> (\<forall>j<i. \<not> outstanding (targets ! j) < capacity (targets ! j))
              \<and> d \<noteq> dest (targets ! i) \<longrightarrow>
            firstAvailable_select ctx targets st 0 = Inr (noop, None, targets, st))
       \<and> (\<forall>i p c. c = (if idx \<ge> length targets then 0 else idx) \<and> i < length targets
              \<and> p = (c + i) mod length targets
              \<and> outstanding (targets ! p) < capacity (targets ! p)
              \<and> (\<forall>j<i. \<not> outstanding (targets ! ((c + j) mod length targets))
                        < capacity (targets ! ((c + j) mod length targets)))
              \<and> d \<noteq> dest (targets ! p) \<longrightarrow>
            roundRobin_select ctx targets st idx = Inr (noop, None, targets, st, c))
       \<and> (length targets = 1 \<and> d \<noteq> dest (targets ! 0) \<longrightarrow>
            randomChoice2_select d1 d2 ctx targets st = Inr (noop, None, targets, st))
       \<and> (\<forall>r1 r2. 2 \<le> length targets \<and> draw2 (length targets) d1 d2 = (r1, r2)
              \<and> r1 < length targets \<and> r2 < length targets
              \<and> d \<noteq> dest (targets ! (if getWeight (targets ! r1) > getWeight (targets ! r2) then r2 else r1)) \<longrightarrow>
            randomChoice2_select d1 d2 ctx targets st = Inr (noop, None, targets, st))"
proof (intro conjI allI impI)
  fix i
  assume a: "i < length targets \<and> outstanding (targets ! i) < capacity (targets ! i)
     \<and> (\<forall>j<i. \<not> outstanding (targets ! j) < capacity (targets ! j)) \<and> d \<noteq> dest (targets ! i)"
  have "setSession ctx ((targets ! i)\<lparr>outstanding := outstanding (targets ! i) + 1\<rparr>) st = Inr (False, st)"
    using assms a by (intro setSession_conflict) auto
  then show "firstAvailable_select ctx targets st 0 = Inr (noop, None, targets, st)"
    using a by (simp add: firstAvailable_select_at [of i])
next
  fix i p c
  assume a: "c = (if idx \<ge> length targets then 0 else idx) \<and> i < length targets
     \<and> p = (c + i) mod length targets
     \<and> outstanding (targets ! p) < capacity (targets ! p)
     \<and> (\<forall>j<i. \<not> outstanding (targets ! ((c + j) mod length targets))
                        < capacity (targets ! ((c + j) mod length targets)))
     \<and> d \<noteq> dest (targets ! p)"
  from a have c: "c = (if idx \<ge> length targets then 0 else idx)"
    and i: "i < length targets" and p: "p = (c + i) mod length targets"
    and av: "outstanding (targets ! p) < capacity (targets ! p)"
    and none: "\<forall>j<i. \<not> outstanding (targets ! ((c + j) mod length targets))
                        < capacity (targets ! ((c + j) mod length targets))"
    and ne: "d \<noteq> dest (targets ! p)"
    by blast+
  have ss: "setSession ctx ((targets ! p)\<lparr>outstanding := outstanding (targets ! p) + 1\<rparr>) st = Inr (False, st)"
    using assms ne by (intro setSession_conflict) auto
  have sel: "roundRobin_select ctx targets st idx = roundRobin_loop ctx targets st c (length targets) 0"
    unfolding c by (simp add: roundRobin_select_def)
  show "roundRobin_select ctx targets st idx = Inr (noop, None, targets, st, c)"
    unfolding sel roundRobin_loop_at [OF i p av none] ss by simp
next
  assume a: "length targets = 1 \<and> d \<noteq> dest (targets ! 0)"
  have "setSession ctx (targets ! 0) st = Inr (False, st)"
    using assms a by (intro setSession_conflict) auto
  then show "randomChoice2_select d1 d2 ctx targets st = Inr (noop, None, targets, st)"
    using a by (simp add: randomChoice2_select_def index_def)
next
  fix r1 r2
  assume a: "2 \<le> length targets \<and> draw2 (length targets) d1 d2 = (r1, r2)
     \<and> r1 < length targets \<and> r2 < length targets
     \<and> d \<noteq> dest (targets ! (if getWeight (targets ! r1) > getWeight (targets ! r2) then r2 else r1))"
  let ?p = "if getWeight (targets ! r1) > getWeight (targets ! r2) then r2 else r1"
  have "setSession ctx (targets ! ?p) st = Inr (False, st)"
    using assms a by (intro setSession_conflict) auto
  then show "randomChoice2_select d1 d2 ctx targets st = Inr (noop, None, targets, st)"
    using a by (auto simp: randomChoice2_select_def index_def Let_def)
qed


theorem binding_conflict_aborts_witness:
  "firstAvailable_select (context_of (session_request ''abc'')) two_backends [''abc'' \<mapsto> ''10.0.0.2''] 0
     = Inr (noop, None, two_backends, [''abc'' \<mapsto> ''10.0.0.2''])
   \<and> roundRobin_select (context_of (session_request ''abc'')) two_backends [''abc'' \<mapsto> ''10.0.0.2''] 5
     = Inr (noop, None, two_backends, [''abc'' \<mapsto> ''10.0.0.2''], 0)
   \<and> randomChoice2_select 0 0 (context_of (session_request ''abc'')) two_backends [''abc'' \<mapsto> ''10.0.0.2'']
     = Inr (noop, None, two_backends, [''abc'' \<mapsto> ''10.0.0.2''])
   \<and> randomChoice2_select 0 0 (context_of (session_request ''abc'')) [backend ''10.0.0.1'' 0 0 1]
        [''abc'' \<mapsto> ''10.0.0.2'']
     = Inr (noop, None, [backend ''10.0.0.1'' 0 0 1], [''abc'' \<mapsto> ''10.0.0.2''])"
proof -
  have s: "sessionFrom (context_of (session_request ''abc'')) = Inr ''abc''"
    by (rule sessionFrom_session) simp
  have g: "store_Get [''abc'' \<mapsto> ''10.0.0.2''] ''abc'' = ''10.0.0.2''"
    by (simp add: store_Get_def)
  note two = binding_conflict_aborts [OF s _ g, of two_backends 5 0 0]
  note one = binding_conflict_aborts [OF s _ g, of "[backend ''10.0.0.1'' 0 0 1]" 5 0 0]
  have "firstAvailable_select (context_of (session_request ''abc'')) two_backends [''abc'' \<mapsto> ''10.0.0.2''] 0
     = Inr (noop, None, two_backends, [''abc'' \<mapsto> ''10.0.0.2''])"
    by (rule two [THEN conjunct1, rule_format, of 0]) (simp_all add: two_backends_simps backend_def)
  moreover have "roundRobin_select (context_of (session_request ''abc'')) two_backends [''abc'' \<mapsto> ''10.0.0.2''] 5
     = Inr (noop, None, two_backends, [''abc'' \<mapsto> ''10.0.0.2''], 0)"
    by (rule two [THEN conjunct2, THEN conjunct1, rule_format, of 0 0 0])
       (simp_all add: two_backends_simps backend_def)
  moreover have "randomChoice2_select 0 0 (context_of (session_request ''abc'')) two_backends [''abc'' \<mapsto> ''10.0.0.2'']
     = Inr (noop, None, two_backends, [''abc'' \<mapsto> ''10.0.0.2''])"
    by (rule two [THEN conjunct2, THEN conjunct2, THEN conjunct2, rule_format, of 0 1])
       (simp_all add: draw2_def two_backends_simps backend_def getWeight_def)
  moreover have "randomChoice2_select 0 0 (context_of (session_request ''abc'')) [backend ''10.0.0.1'' 0 0 1]
        [''abc'' \<mapsto> ''10.0.0.2'']
     = Inr (noop, None, [backend ''10.0.0.1'' 0 0 1], [''abc'' \<mapsto> ''10.0.0.2''])"
    by (rule one [THEN conjunct2, THEN conjunct2, THEN conjunct1, rule_format])
       (simp_all add: backend_def)
  ultimately show ?thesis by blast
qed

section \<open>Power of two choices\<close>

lemma store_Set_Del: "store_Set (store_Del st s v) s d = store_Set st s d"
  by (simp add: store_Set_def store_Del_def)

lemma store_Get_Del_unbound: "store_Get st s = [] \<Longrightarrow> store_Get (store_Del st s []) s = []"
  by (simp add: store_Get_def store_Del_def)

lemma setSession_after_unbound:
  assumes "sessionFrom ctx = Inr s" and "s = [] \<or> store_Get st s = []"
  shows "setSession ctx t (if s = [] then st else store_Del st s [])
         = Inr (True, if s = [] then st else store_Set st s (dest t))"
proof (cases "s = []")
  case True
  then show ?thesis using assms(1) by (simp add: setSession_ok)
next
  case False
  with assms(2) have "store_Get (store_Del st s []) s = []"
    by (simp add: store_Get_Del_unbound)
  then have "setSession ctx t (store_Del st s [])
      = Inr (True, if s = [] then store_Del st s [] else store_Set (store_Del st s []) s (dest t))"
    using assms(1) by (intro setSession_ok) auto
  with False show ?thesis by (simp add: store_Set_Del)
qed

lemma draw2_distinct_in_range:
  assumes "2 \<le> l" and "l > 2 \<longrightarrow> d1 < l \<and> d2 < l - 1" and "draw2 l d1 d2 = (r1, r2)"
  shows "r1 \<noteq> r2 \<and> r1 < l \<and> r2 < l \<and> (l = 2 \<longrightarrow> r1 = 0 \<and> r2 = 1)"
  using assms by (auto simp: draw2_def split: if_splits)

lemma randomChoice2_select_two:
  assumes "r1 < length targets" and "r2 < length targets" and "2 \<le> length targets"
    and "draw2 (length targets) d1 d2 = (r1, r2)"
    and "p = (if getWeight (targets ! r2) < getWeight (targets ! r1) then r2 else r1)"
    and "setSession ctx (targets ! p) st = Inr (True, st')"
  shows "randomChoice2_select d1 d2 ctx targets st
         = Inr (decreaseWeight_of p, Some p, targets[p := increaseWeight (targets ! p)], st')"
  using assms by (auto simp: randomChoice2_select_def index_def Let_def)

text \<open>
  C7.  The request has no bound session and the target set has at least two members; for
  more than two, \<open>d1\<close> and \<open>d2\<close> are what \<^verbatim>\<open>rand.Intn(l)\<close> and \<^verbatim>\<open>rand.Intn(l-1)\<close> return,
  so in their ranges.  The two positions compared are then: for more than two members the
  first draw \<open>d1\<close> and the second draw \<open>d2\<close> moved up by one when it is at or above the
  first; for exactly two members 0 and 1 whatever the draws.  They are distinct and in
  range, and the policy picks the second position when its weight is strictly lower and the
  first otherwise (so also on a tie).  The pick's weight is increased, the callback
  decreases it, and the session key, when there is one, is bound to the pick.
\<close>

theorem power_of_two_choices:
  assumes "sessionFrom ctx = Inr s" and "s = [] \<or> store_Get st s = []"
    and "2 \<le> length targets"
    and "length targets > 2 \<longrightarrow> d1 < length targets \<and> d2 < length targets - 1"
    and "r1 = (if length targets > 2 then d1 else 0)"
    and "r2 = (if length targets > 2 then (if d2 \<ge> d1 then d2 + 1 else d2) else 1)"
    and "p = (if getWeight (targets ! r2) < getWeight (targets ! r1) then r2 else r1)"
  shows "draw2 (length targets) d1 d2 = (r1, r2)
       \<and> r1 \<noteq> r2 \<and> r1 < length targets \<and> r2 < length targets
       \<and> (length targets = 2 \<longrightarrow> r1 = 0 \<and> r2 = 1)
       \<and> randomChoice2Policy d1 d2 ctx targets st
           = Inr (decreaseWeight_of p, Some p, targets[p := increaseWeight (targets ! p)],
                  if s = [] then st else store_Set st s (dest (targets ! p)))"
proof -
  have d: "draw2 (length targets) d1 d2 = (r1, r2)"
    unfolding assms(5,6) by (simp add: draw2_def)
  have r: "r1 \<noteq> r2 \<and> r1 < length targets \<and> r2 < length targets
       \<and> (length targets = 2 \<longrightarrow> r1 = 0 \<and> r2 = 1)"
    using assms(3,4) d by (rule draw2_distinct_in_range)
  have g: "getSession ctx targets st = Inr (None, if s = [] then st else store_Del st s [])"
    using assms(1,2) by (rule getSession_unbound)
  have ss: "setSession ctx (targets ! p) (if s = [] then st else store_Del st s [])
         = Inr (True, if s = [] then st else store_Set st s (dest (targets ! p)))"
    using assms(1,2) by (rule setSession_after_unbound)
  have "randomChoice2_select d1 d2 ctx targets (if s = [] then st else store_Del st s [])
        = Inr (decreaseWeight_of p, Some p, targets[p := increaseWeight (targets ! p)],
               if s = [] then st else store_Set st s (dest (targets ! p)))"
    using r assms(3,7) d ss by (intro randomChoice2_select_two) auto
  then have "randomChoice2Policy d1 d2 ctx targets st
           = Inr (decreaseWeight_of p, Some p, targets[p := increaseWeight (targets ! p)],
                  if s = [] then st else store_Set st s (dest (targets ! p)))"
    by (simp add: randomChoice2Policy_def g)
  with d r show ?thesis by blast
qed

theorem power_of_two_choices_witness:
  "draw2 (length three_weighted) 1 1 = (1, 2)
   \<and> randomChoice2Policy 1 1 (context_of (session_request ''abc'')) three_weighted Map.empty
     = Inr (decreaseWeight_of 1, Some 1,
            [backend ''10.0.0.1'' 3 0 0, backend ''10.0.0.2'' 2 0 0, backend ''10.0.0.3'' 1 0 0],
            [''abc'' \<mapsto> ''10.0.0.2''])
   \<and> draw2 (length three_weighted) 2 0 = (2, 0)
   \<and> randomChoice2Policy 2 0 (context_of (session_request ''abc'')) three_weighted Map.empty
     = Inr (decreaseWeight_of 2, Some 2,
            [backend ''10.0.0.1'' 3 0 0, backend ''10.0.0.2'' 1 0 0, backend ''10.0.0.3'' 2 0 0],
            [''abc'' \<mapsto> ''10.0.0.3''])
   \<and> draw2 (length three_weighted) 0 0 = (0, 1)
   \<and> randomChoice2Policy 0 0 (context_of (session_request ''abc'')) three_weighted Map.empty
     = Inr (decreaseWeight_of 1, Some 1,
            [backend ''10.0.0.1'' 3 0 0, backend ''10.0.0.2'' 2 0 0, backend ''10.0.0.3'' 1 0 0],
            [''abc'' \<mapsto> ''10.0.0.2''])"
proof -
  have s: "sessionFrom (context_of (session_request ''abc'')) = Inr ''abc''"
    by (rule sessionFrom_session) simp
  have u: "''abc'' = [] \<or> store_Get Map.empty ''abc'' = []"
    by (simp add: store_Get_def)
  have l: "2 \<le> length three_weighted" by (simp add: three_weighted_def)
  have r11: "(1::nat) < length three_weighted \<and> (1::nat) < length three_weighted - 1"
    and r20: "(2::nat) < length three_weighted \<and> (0::nat) < length three_weighted - 1"
    and r00: "(0::nat) < length three_weighted \<and> (0::nat) < length three_weighted - 1"
    by (simp_all add: three_weighted_def)
  note tie = power_of_two_choices [OF s u l impI [OF r11] refl refl refl]
  note first_draw = power_of_two_choices [OF s u l impI [OF r20] refl refl refl]
  note second_lower = power_of_two_choices [OF s u l impI [OF r00] refl refl refl]
  show ?thesis
    using tie first_draw second_lower
    by (simp add: three_weighted_def backend_def getWeight_def increaseWeight_def store_Set_def)
qed

section \<open>A single target\<close>

text \<open>
  C9, as the code has it.  The target set is the single tracker \<open>t\<close> and the request has no
  bound session.  First-available and round-robin select \<open>t\<close>, reserving one unit, when
  \<open>t\<close> is below its maximum, and return no tracker when it is not.  Power of two choices
  makes no reservation: it selects \<open>t\<close> and increases its weight whether or not \<open>t\<close> has
  capacity.
\<close>

theorem single_target_selection:
  assumes "sessionFrom ctx = Inr s" and "s = [] \<or> store_Get st s = []"
  shows "(outstanding t < capacity t \<longrightarrow>
            firstAvailableLBPolicy ctx [t] st
              = Inr (cb 0, Some 0, [t\<lparr>outstanding := outstanding t + 1\<rparr>],
                     if s = [] then st else store_Set st s (dest t))
          \<and> roundRobinPolicy ctx [t] st idx
              = Inr (cb 0, Some 0, [t\<lparr>outstanding := outstanding t + 1\<rparr>],
                     if s = [] then st else store_Set st s (dest t), 1))
       \<and> (\<not> outstanding t < capacity t \<longrightarrow>
            firstAvailableLBPolicy ctx [t] st
              = Inr (noop, None, [t], if s = [] then st else store_Del st s [])
          \<and> roundRobinPolicy ctx [t] st idx
              = Inr (noop, None, [t], if s = [] then st else store_Del st s [], 0))
       \<and> randomChoice2Policy d1 d2 ctx [t] st
            = Inr (decreaseWeight_of 0, Some 0, [increaseWeight t],
                   if s = [] then st else store_Set st s (dest t))"
proof -
  let ?st1 = "if s = [] then st else store_Del st s []"
  let ?st2 = "if s = [] then st else store_Set st s (dest t)"
  have g: "getSession ctx [t] st = Inr (None, ?st1)"
    using assms by (rule getSession_unbound)
  have ss: "setSession ctx u ?st1 = Inr (True, if s = [] then st else store_Set st s (dest u))" for u
    using assms by (rule setSession_after_unbound)
  have "(if idx \<ge> length [t] then 0 else idx) = 0"
    by auto
  then have sel: "roundRobin_select ctx [t] ?st1 idx = roundRobin_loop ctx [t] ?st1 0 (length [t]) 0"
    by (simp only: roundRobin_select_def Let_def)
  have free: "firstAvailableLBPolicy ctx [t] st
              = Inr (cb 0, Some 0, [t\<lparr>outstanding := outstanding t + 1\<rparr>], ?st2)
          \<and> roundRobinPolicy ctx [t] st idx
              = Inr (cb 0, Some 0, [t\<lparr>outstanding := outstanding t + 1\<rparr>], ?st2, 1)"
    if "outstanding t < capacity t"
  proof
    have "firstAvailable_select ctx [t] ?st1 0
          = Inr (cb 0, Some 0, [t\<lparr>outstanding := outstanding t + 1\<rparr>], ?st2)"
      by (subst firstAvailable_select_at [of 0]) (use that in \<open>simp_all add: ss\<close>)
    then show "firstAvailableLBPolicy ctx [t] st
              = Inr (cb 0, Some 0, [t\<lparr>outstanding := outstanding t + 1\<rparr>], ?st2)"
      by (simp add: firstAvailableLBPolicy_def g)
    have "roundRobin_loop ctx [t] ?st1 0 (length [t]) 0
          = Inr (cb 0, Some 0, [t\<lparr>outstanding := outstanding t + 1\<rparr>], ?st2, 1)"
      by (subst roundRobin_loop_at [of 0 _ 0]) (use that in \<open>simp_all add: ss\<close>)
    then show "roundRobinPolicy ctx [t] st idx
              = Inr (cb 0, Some 0, [t\<lparr>outstanding := outstanding t + 1\<rparr>], ?st2, 1)"
      by (simp add: roundRobinPolicy_def g sel)
  qed
  have full: "firstAvailableLBPolicy ctx [t] st = Inr (noop, None, [t], ?st1)
          \<and> roundRobinPolicy ctx [t] st idx = Inr (noop, None, [t], ?st1, 0)"
    if "\<not> outstanding t < capacity t"
  proof
    have a: "\<forall>u\<in>set [t]. \<not> outstanding u < capacity u" using that by simp
    have "firstAvailable_select ctx [t] ?st1 0 = Inr (noop, None, [t], ?st1)"
      by (rule firstAvailable_select_none [OF a])
    then show "firstAvailableLBPolicy ctx [t] st = Inr (noop, None, [t], ?st1)"
      by (simp add: firstAvailableLBPolicy_def g)
    have "roundRobin_loop ctx [t] ?st1 0 (length [t]) 0 = Inr (noop, None, [t], ?st1, 0)"
      by (rule roundRobin_loop_none [OF a])
    with sel have "roundRobin_select ctx [t] ?st1 idx = Inr (noop, None, [t], ?st1, 0)"
      by (rule trans)
    then show "roundRobinPolicy ctx [t] st idx = Inr (noop, None, [t], ?st1, 0)"
      by (simp add: roundRobinPolicy_def g)
  qed
  have "randomChoice2_select d1 d2 ctx [t] ?st1
        = Inr (decreaseWeight_of 0, Some 0, [increaseWeight t], ?st2)"
    by (simp add: randomChoice2_select_def index_def ss)
  then have p2c: "randomChoice2Policy d1 d2 ctx [t] st
        = Inr (decreaseWeight_of 0, Some 0, [increaseWeight t], ?st2)"
    by (simp add: randomChoice2Policy_def g)
  from free full p2c show ?thesis by blast
qed

theorem single_target_selection_witness:
  "firstAvailableLBPolicy (context_of plain_request) [backend ''10.0.0.1'' 0 0 1] Map.empty
     = Inr (cb 0, Some 0, [backend ''10.0.0.1'' 0 1 1], Map.empty)
   \<and> roundRobinPolicy (context_of plain_request) [backend ''10.0.0.1'' 0 0 1] Map.empty 4
     = Inr (cb 0, Some 0, [backend ''10.0.0.1'' 0 1 1], Map.empty, 1)
   \<and> firstAvailableLBPolicy (context_of plain_request) [backend ''10.0.0.1'' 0 1 1] Map.empty
     = Inr (noop, None, [backend ''10.0.0.1'' 0 1 1], Map.empty)
   \<and> roundRobinPolicy (context_of plain_request) [backend ''10.0.0.1'' 0 1 1] Map.empty 4
     = Inr (noop, None, [backend ''10.0.0.1'' 0 1 1], Map.empty, 0)
   \<and> randomChoice2Policy 0 0 (context_of plain_request) [backend ''10.0.0.1'' 0 0 1] Map.empty
     = Inr (decreaseWeight_of 0, Some 0, [backend ''10.0.0.1'' 1 0 1], Map.empty)"
proof -
  have u: "[] = [] \<or> store_Get Map.empty [] = []" by simp
  show ?thesis
    using single_target_selection [OF sessionFrom_plain u, of "backend ''10.0.0.1'' 0 0 1" 4 0 0]
      single_target_selection [OF sessionFrom_plain u, of "backend ''10.0.0.1'' 0 1 1" 4 0 0]
    by (simp add: backend_def increaseWeight_def)
qed

text \<open>
  The claim as stated fails for power of two choices: a sole tracker that is at its maximum
  (\<^verbatim>\<open>Reserve\<close> fails on it) is selected all the same.
\<close>

theorem single_target_counterexample:
  "Reserve (backend ''10.0.0.1'' 0 1 1) = None
   \<and> randomChoice2Policy 0 0 (context_of plain_request) [backend ''10.0.0.1'' 0 1 1] Map.empty
       = Inr (decreaseWeight_of 0, Some 0, [backend ''10.0.0.1'' 1 1 1], Map.empty)"
  by (simp add: Reserve_def backend_def randomChoice2Policy_def randomChoice2_select_def
      getSession_def setSession_def sessionFrom_plain index_def increaseWeight_def)

section \<open>Round robin\<close>

lemma roundRobinPolicy_pick:
  assumes "sessionFrom ctx = Inr s" and "s = [] \<or> store_Get st s = []"
    and "c = (if idx \<ge> length targets then 0 else idx)"
    and "i < length targets" and "p = (c + i) mod length targets"
    and "outstanding (targets ! p) < capacity (targets ! p)"
    and "\<forall>j<i. \<not> outstanding (targets ! ((c + j) mod length targets))
                 < capacity (targets ! ((c + j) mod length targets))"
  shows "roundRobinPolicy ctx targets st idx
         = Inr (cb p, Some p, targets[p := (targets ! p)\<lparr>outstanding := outstanding (targets ! p) + 1\<rparr>],
                if s = [] then st else store_Set st s (dest (targets ! p)), p + 1)"
proof -
  let ?st1 = "if s = [] then st else store_Del st s []"
  let ?t = "(targets ! p)\<lparr>outstanding := outstanding (targets ! p) + 1\<rparr>"
  have g: "getSession ctx targets st = Inr (None, ?st1)"
    using assms(1,2) by (rule getSession_unbound)
  have ss: "setSession ctx ?t ?st1 = Inr (True, if s = [] then st else store_Set st s (dest ?t))"
    using assms(1,2) by (rule setSession_after_unbound)
  have sel: "roundRobin_select ctx targets ?st1 idx = roundRobin_loop ctx targets ?st1 c (length targets) 0"
    unfolding assms(3) by (simp only: roundRobin_select_def Let_def)
  have "roundRobin_select ctx targets ?st1 idx
        = Inr (cb p, Some p, targets[p := ?t], if s = [] then st else store_Set st s (dest (targets ! p)), p + 1)"
    unfolding sel roundRobin_loop_at [OF assms(4,5,6,7)] ss by simp
  then show ?thesis
    by (simp add: roundRobinPolicy_def g)
qed

lemma roundRobinPolicy_none:
  assumes "sessionFrom ctx = Inr s" and "s = [] \<or> store_Get st s = []"
    and "c = (if idx \<ge> length targets then 0 else idx)"
    and "\<forall>t\<in>set targets. \<not> outstanding t < capacity t"
  shows "roundRobinPolicy ctx targets st idx
         = Inr (noop, None, targets, if s = [] then st else store_Del st s [], c)"
proof -
  let ?st1 = "if s = [] then st else store_Del st s []"
  have g: "getSession ctx targets st = Inr (None, ?st1)"
    using assms(1,2) by (rule getSession_unbound)
  have sel: "roundRobin_select ctx targets ?st1 idx = roundRobin_loop ctx targets ?st1 c (length targets) 0"
    unfolding assms(3) by (simp only: roundRobin_select_def Let_def)
  have "roundRobin_select ctx targets ?st1 idx = Inr (noop, None, targets, ?st1, c)"
    unfolding sel by (rule roundRobin_loop_none [OF assms(4)])
  then show ?thesis
    by (simp add: roundRobinPolicy_def g)
qed

lemma cyclic_positions_distinct:
  assumes "m < j" and "j < (l::nat)"
  shows "(c + j) mod l \<noteq> (c + m) mod l"
proof
  assume "(c + j) mod l = (c + m) mod l"
  then have "l dvd (c + j) - (c + m)"
    using assms(1) by (metis add_le_cancel_left less_imp_le_nat mod_eq_dvd_iff_nat)
  then have "l dvd j - m" by simp
  moreover have "0 < j - m" "j - m < l" using assms by auto
  ultimately show False by (auto dest: dvd_imp_le)
qed

lemma cyclic_order_list:
  assumes "c < (l::nat)"
  shows "map (\<lambda>k. (c + k) mod l) [0..<l] = [c..<l] @ [0..<c]"
proof (rule nth_equalityI)
  show "length (map (\<lambda>k. (c + k) mod l) [0..<l]) = length ([c..<l] @ [0..<c])"
    using assms by simp
next
  fix k assume "k < length (map (\<lambda>k. (c + k) mod l) [0..<l])"
  then have k: "k < l" by simp
  show "map (\<lambda>k. (c + k) mod l) [0..<l] ! k = ([c..<l] @ [0..<c]) ! k"
  proof (cases "c + k < l")
    case True
    then have "k < l - c" by arith
    with True show ?thesis using k by (simp add: nth_append)
  next
    case False
    then have m: "(c + k) mod l = c + k - l"
      using k assms by (simp add: mod_if)
    have n: "\<not> k < l - c" "k - (l - c) < c" "c + k - l = k - (l - c)"
      using False k assms by arith+
    show ?thesis using k n by (simp add: nth_append m)
  qed
qed


lemma roundRobin_calls_cyclic:
  assumes "sessionFrom ctx = Inr []" and "l = length ts" and "c < l" and "m + k \<le> l"
    and "(if idx \<ge> l then 0 else idx) = (c + m) mod l"
    and "\<forall>j. m \<le> j \<and> j < l \<longrightarrow> outstanding (ts ! ((c + j) mod l)) < capacity (ts ! ((c + j) mod l))"
  shows "\<exists>ts' idx'. roundRobin_calls k ctx ts st idx
           = Inr (map (\<lambda>j. Some ((c + j) mod l)) [m..<m + k], ts', st, idx')"
  using assms(2,4,5,6)
proof (induction k arbitrary: m ts idx)
  case 0
  show ?case by simp
next
  case (Suc k)
  let ?p = "(c + m) mod l"
  let ?ts = "ts[?p := (ts ! ?p)\<lparr>outstanding := outstanding (ts ! ?p) + 1\<rparr>]"
  have ml: "m < l" using Suc.prems(2) by simp
  have pl: "?p < l" using assms(3) by simp
  have w: "?p = (if idx \<ge> length ts then 0 else idx)"
    using Suc.prems(1,3) by simp
  have p0: "?p = (?p + 0) mod length ts"
    using pl Suc.prems(1) by simp
  have av: "outstanding (ts ! ?p) < capacity (ts ! ?p)"
    using Suc.prems(4) ml by simp
  have first: "roundRobinPolicy ctx ts st idx = Inr (cb ?p, Some ?p, ?ts, st, ?p + 1)"
  proof -
    have i0: "0 < length ts" using ml Suc.prems(1) by (cases ts) auto
    have u: "[] = [] \<or> store_Get st [] = []" by simp
    have nb: "\<forall>j<0. \<not> outstanding (ts ! ((?p + j) mod length ts))
                 < capacity (ts ! ((?p + j) mod length ts))" by simp
    show ?thesis
      using roundRobinPolicy_pick [OF assms(1) u w i0 p0 av nb] by simp
  qed
  have wrap: "(if ?p + 1 \<ge> l then 0 else ?p + 1) = (c + (m + 1)) mod l"
    using pl by (auto simp: mod_Suc)
  have same: "\<forall>j. m + 1 \<le> j \<and> j < l \<longrightarrow>
      outstanding (?ts ! ((c + j) mod l)) < capacity (?ts ! ((c + j) mod l))"
  proof (intro allI impI)
    fix j assume j: "m + 1 \<le> j \<and> j < l"
    then have "(c + j) mod l \<noteq> ?p"
      by (intro cyclic_positions_distinct) auto
    then have "?ts ! ((c + j) mod l) = ts ! ((c + j) mod l)" by simp
    moreover have "outstanding (ts ! ((c + j) mod l)) < capacity (ts ! ((c + j) mod l))"
      using Suc.prems(4) j by simp
    ultimately show "outstanding (?ts ! ((c + j) mod l)) < capacity (?ts ! ((c + j) mod l))"
      by simp
  qed
  have "\<exists>ts' idx'. roundRobin_calls k ctx ?ts st (?p + 1)
           = Inr (map (\<lambda>j. Some ((c + j) mod l)) [m + 1..<m + 1 + k], ts', st, idx')"
    using Suc.prems(1,2) by (intro Suc.IH [OF _ _ wrap same]) auto
  then obtain ts' idx' where rest: "roundRobin_calls k ctx ?ts st (?p + 1)
           = Inr (map (\<lambda>j. Some ((c + j) mod l)) [m + 1..<m + 1 + k], ts', st, idx')"
    by blast
  have "[m..<m + Suc k] = m # [m + 1..<m + 1 + k]"
    by (simp add: upt_conv_Cons)
  then have "roundRobin_calls (Suc k) ctx ts st idx
      = Inr (map (\<lambda>j. Some ((c + j) mod l)) [m..<m + Suc k], ts', st, idx')"
    using first rest by simp
  then show ?case by blast
qed

text \<open>
  C6.  The request has no bound session; \<open>l\<close> is the size of the target set and \<open>c\<close> the
  cursor as the call wraps it (0 when the stored cursor is at or past \<open>l\<close>).
  \<^item> The scan goes through the positions \<open>(c + i) mod l\<close> for \<open>i = 0, 1, \<dots>\<close>: when position
    \<open>p = (c + i) mod l\<close> is the first of them with capacity, the call reserves it, returns
    it with its release function, and the cursor becomes \<open>p + 1\<close>.
  \<^item> When no tracker has capacity the call returns no tracker and the cursor is \<open>c\<close>.
  \<^item> Neither case panics, whatever the stored cursor was.
  \<^item> When the request has no session key and every tracker has capacity, \<open>l\<close> consecutive
    calls pick the positions \<open>c, \<dots>, l - 1, 0, \<dots>, c - 1\<close> in this order: each tracker once.
\<close>

theorem round_robin:
  assumes "sessionFrom ctx = Inr s" and "s = [] \<or> store_Get st s = []"
    and "l = length targets" and "c = (if idx \<ge> l then 0 else idx)"
  shows "(\<forall>i p. i < l \<and> p = (c + i) mod l
              \<and> outstanding (targets ! p) < capacity (targets ! p)
              \<and> (\<forall>j<i. \<not> outstanding (targets ! ((c + j) mod l)) < capacity (targets ! ((c + j) mod l))) \<longrightarrow>
            p < l
          \<and> roundRobinPolicy ctx targets st idx
              = Inr (cb p, Some p, targets[p := (targets ! p)\<lparr>outstanding := outstanding (targets ! p) + 1\<rparr>],
                     if s = [] then st else store_Set st s (dest (targets ! p)), p + 1))
       \<and> ((\<forall>t\<in>set targets. \<not> outstanding t < capacity t) \<longrightarrow>
            roundRobinPolicy ctx targets st idx
              = Inr (noop, None, targets, if s = [] then st else store_Del st s [], c))
       \<and> (s = [] \<and> (\<forall>t\<in>set targets. outstanding t < capacity t) \<longrightarrow>
            (\<exists>targets' idx'. roundRobin_calls l ctx targets st idx
                = Inr (map Some ([c..<l] @ [0..<c]), targets', st, idx')))"
proof (intro conjI allI impI)
  fix i p
  assume a: "i < l \<and> p = (c + i) mod l
     \<and> outstanding (targets ! p) < capacity (targets ! p)
     \<and> (\<forall>j<i. \<not> outstanding (targets ! ((c + j) mod l)) < capacity (targets ! ((c + j) mod l)))"
  then show "p < l" by (simp add: cyclic_position_less)
  from a have i: "i < length targets" and p: "p = (c + i) mod length targets"
    and av: "outstanding (targets ! p) < capacity (targets ! p)"
    and none: "\<forall>j<i. \<not> outstanding (targets ! ((c + j) mod length targets))
                 < capacity (targets ! ((c + j) mod length targets))"
    unfolding assms(3) by blast+
  have c: "c = (if idx \<ge> length targets then 0 else idx)"
    using assms(3,4) by simp
  show "roundRobinPolicy ctx targets st idx
      = Inr (cb p, Some p, targets[p := (targets ! p)\<lparr>outstanding := outstanding (targets ! p) + 1\<rparr>],
             if s = [] then st else store_Set st s (dest (targets ! p)), p + 1)"
    using assms(1,2) c i p av none by (rule roundRobinPolicy_pick)
next
  assume a: "\<forall>t\<in>set targets. \<not> outstanding t < capacity t"
  have c: "c = (if idx \<ge> length targets then 0 else idx)"
    using assms(3,4) by simp
  show "roundRobinPolicy ctx targets st idx
      = Inr (noop, None, targets, if s = [] then st else store_Del st s [], c)"
    using assms(1,2) c a by (rule roundRobinPolicy_none)
next
  assume a: "s = [] \<and> (\<forall>t\<in>set targets. outstanding t < capacity t)"
  show "\<exists>targets' idx'. roundRobin_calls l ctx targets st idx
                = Inr (map Some ([c..<l] @ [0..<c]), targets', st, idx')"
  proof (cases "l = 0")
    case True
    then show ?thesis using assms(4) by simp
  next
    case False
    then have cl: "c < l" using assms(4) by auto
    have s0: "sessionFrom ctx = Inr []" using assms(1) a by simp
    have w: "(if idx \<ge> l then 0 else idx) = (c + 0) mod l"
      using cl assms(4) by simp
    have av: "\<forall>j. 0 \<le> j \<and> j < l \<longrightarrow>
        outstanding (targets ! ((c + j) mod l)) < capacity (targets ! ((c + j) mod l))"
    proof (intro allI impI)
      fix j assume "0 \<le> j \<and> j < l"
      then have "(c + j) mod l < length targets"
        using assms(3) by (simp add: cyclic_position_less)
      then have "targets ! ((c + j) mod l) \<in> set targets" by (rule nth_mem)
      with a show "outstanding (targets ! ((c + j) mod l)) < capacity (targets ! ((c + j) mod l))"
        by blast
    qed
    obtain ts' idx' where "roundRobin_calls l ctx targets st idx
        = Inr (map (\<lambda>j. Some ((c + j) mod l)) [0..<0 + l], ts', st, idx')"
      using roundRobin_calls_cyclic [OF s0 assms(3) cl _ w av, of l st] by auto
    moreover have "map (\<lambda>j. Some ((c + j) mod l)) [0..<0 + l]
        = map Some (map (\<lambda>k. (c + k) mod l) [0..<l])"
      by simp
    then have "map (\<lambda>j. Some ((c + j) mod l)) [0..<0 + l] = map Some ([c..<l] @ [0..<c])"
      by (simp only: cyclic_order_list [OF cl])
    ultimately show ?thesis by auto
  qed
qed


theorem round_robin_witness:
  "roundRobinPolicy (context_of plain_request) three_free Map.empty 7
     = Inr (cb 0, Some 0,
            [backend ''10.0.0.1'' 0 1 5, backend ''10.0.0.2'' 0 0 5, backend ''10.0.0.3'' 0 0 5],
            Map.empty, 1)
   \<and> roundRobinPolicy (context_of plain_request) [backend ''10.0.0.1'' 0 1 1] Map.empty 7
     = Inr (noop, None, [backend ''10.0.0.1'' 0 1 1], Map.empty, 0)
   \<and> (\<exists>targets' idx'. roundRobin_calls 3 (context_of plain_request) three_free Map.empty 1
        = Inr ([Some 1, Some 2, Some 0], targets', Map.empty, idx'))"
proof -
  have u: "[] = [] \<or> store_Get Map.empty [] = []" by simp
  have l3: "3 = length three_free" and l1: "1 = length [backend ''10.0.0.1'' 0 1 1]"
    by (simp_all add: three_free_def)
  have c7: "0 = (if (7::nat) \<ge> 3 then 0 else 7)" and c1: "1 = (if (1::nat) \<ge> 3 then 0 else 1)"
    and c71: "0 = (if (7::nat) \<ge> 1 then 0 else 7)"
    by simp_all
  note shrunk = round_robin [OF sessionFrom_plain u l3 c7, THEN conjunct1, rule_format, of 0 0]
  note full = round_robin [OF sessionFrom_plain u l1 c71, THEN conjunct2, THEN conjunct1, rule_format]
  note cycle = round_robin [OF sessionFrom_plain u l3 c1, THEN conjunct2, THEN conjunct2, rule_format]
  have "roundRobinPolicy (context_of plain_request) three_free Map.empty 7
     = Inr (cb 0, Some 0,
            [backend ''10.0.0.1'' 0 1 5, backend ''10.0.0.2'' 0 0 5, backend ''10.0.0.3'' 0 0 5],
            Map.empty, 1)"
    using shrunk by (simp add: three_free_def backend_def)
  moreover have "roundRobinPolicy (context_of plain_request) [backend ''10.0.0.1'' 0 1 1] Map.empty 7
     = Inr (noop, None, [backend ''10.0.0.1'' 0 1 1], Map.empty, 0)"
    using full by (simp add: backend_def)
  moreover have "\<exists>targets' idx'. roundRobin_calls 3 (context_of plain_request) three_free Map.empty 1
        = Inr ([Some 1, Some 2, Some 0], targets', Map.empty, idx')"
  proof -
    have "[1..<3] @ [0..<1] = [1, 2, 0::nat]" by (simp add: upt_rec)
    then show ?thesis
      using cycle by (simp add: three_free_def backend_def)
  qed
  ultimately show ?thesis by blast
qed

section \<open>The session key\<close>

lemma path_segment_rule:
  "index_not_negative a k \<Longrightarrow> path_segment r (annotation a k) = Inr (configured_segment k r a)"
  by (auto simp: index_not_negative_def path_segment_def configured_segment_def Atoi_def Let_def
      split: option.splits)

text \<open>
  A negative index passes the test \<^verbatim>\<open>n < len(parts)\<close> and the resolver panics at
  \<^verbatim>\<open>parts[n]\<close>.
\<close>

lemma negative_segment_index_panics:
  "handler_getSession plain_request (segment_annotations ''-1'') = Inl IndexOutOfRange"
  by (simp add: handler_getSession_def plain_request_def segment_annotations_def annotation_def
      Header_Get_def path_segment_def Atoi_def digit_def TrimPrefix_def)

text \<open>
  C8, as the code has it.  When no configured path-segment index is negative, the handler's
  resolver returns the first that applies of: the header \<^verbatim>\<open>K-Session\<close> if non-empty; the
  header, the query parameter and the path segment that the \<^verbatim>\<open>sticky-session\<close> annotations
  configure (a configured header or parameter applies even when its value is empty; a
  segment index past the end or not a number does not apply), each recorded back under
  \<^verbatim>\<open>K-Session\<close> when non-empty; the header, the query parameter and the path segment that
  the \<^verbatim>\<open>sticky-revision\<close> annotations configure, not recorded back; and last the header
  \<^verbatim>\<open>K-Revision\<close>, which is the empty string when absent.  The resolver of the policies,
  \<^verbatim>\<open>sessionFrom\<close>, has the first four rules under its own annotation names, records nothing
  back, and returns the empty string when none applies.
\<close>

theorem session_key_order:
  assumes "index_not_negative a ''activator.knative.dev/sticky-session-path-segment''"
    and "index_not_negative a ''activator.knative.dev/sticky-revision-path-segment''"
    and "index_not_negative (Annotations ctx) ''activator.knative.dev/session-path''"
    and "r1 = with_deactivate r a"
  shows "handler_getSession r a =
           Inr (case explicit_header ''K-Session'' r1 a of
                  Some v \<Rightarrow> (r1, v)
                | None \<Rightarrow>
                    (case first_match
                            [configured_header ''activator.knative.dev/sticky-session-header-name'',
                             configured_query ''activator.knative.dev/sticky-session-query-parameter'',
                             configured_segment ''activator.knative.dev/sticky-session-path-segment''] r1 a of
                       Some v \<Rightarrow> (if v \<noteq> [] then Header_Add r1 ''K-Session'' v else r1, v)
                     | None \<Rightarrow>
                         (case first_match
                                 [configured_header ''activator.knative.dev/sticky-revision-header-name'',
                                  configured_query ''activator.knative.dev/sticky-revision-query-parameter'',
                                  configured_segment ''activator.knative.dev/sticky-revision-path-segment''] r1 a of
                            Some v \<Rightarrow> (r1, v)
                          | None \<Rightarrow> (r1, Header_Get r1 ''K-Revision''))))
       \<and> sessionFrom ctx =
           Inr (case first_match
                       [explicit_header ''K-Session'',
                        configured_header ''activator.knative.dev/session-header'',
                        configured_query ''activator.knative.dev/session-query'',
                        configured_segment ''activator.knative.dev/session-path'']
                       (Request ctx) (Annotations ctx) of
                  Some v \<Rightarrow> v
                | None \<Rightarrow> [])"
proof
  have seg: "path_segment r1 (annotation a ''activator.knative.dev/sticky-session-path-segment'')
      = Inr (configured_segment ''activator.knative.dev/sticky-session-path-segment'' r1 a)"
    using assms(1) by (rule path_segment_rule)
  have rev: "path_segment r1 (annotation a ''activator.knative.dev/sticky-revision-path-segment'')
      = Inr (configured_segment ''activator.knative.dev/sticky-revision-path-segment'' r1 a)"
    using assms(2) by (rule path_segment_rule)
  have "handler_getSession r a =
     (if Header_Get r1 ''K-Session'' \<noteq> [] then Inr (r1, Header_Get r1 ''K-Session'')
         else if annotation a ''activator.knative.dev/sticky-session-header-name'' \<noteq> []
         then Inr (addStickySessionHeader r1
                (Header_Get r1 (annotation a ''activator.knative.dev/sticky-session-header-name'')))
         else if annotation a ''activator.knative.dev/sticky-session-query-parameter'' \<noteq> []
         then Inr (addStickySessionHeader r1
                (Query_Get r1 (annotation a ''activator.knative.dev/sticky-session-query-parameter'')))
         else
           (case path_segment r1 (annotation a ''activator.knative.dev/sticky-session-path-segment'') of
              Inl e \<Rightarrow> Inl e
            | Inr (Some s) \<Rightarrow> Inr (addStickySessionHeader r1 s)
            | Inr None \<Rightarrow>
                if annotation a ''activator.knative.dev/sticky-revision-header-name'' \<noteq> []
                then Inr (r1, Header_Get r1 (annotation a ''activator.knative.dev/sticky-revision-header-name''))
                else if annotation a ''activator.knative.dev/sticky-revision-query-parameter'' \<noteq> []
                then Inr (r1, Query_Get r1 (annotation a ''activator.knative.dev/sticky-revision-query-parameter''))
                else
                  (case path_segment r1 (annotation a ''activator.knative.dev/sticky-revision-path-segment'') of
                     Inl e \<Rightarrow> Inl e
                   | Inr (Some s) \<Rightarrow> Inr (r1, s)
                   | Inr None \<Rightarrow> Inr (r1, Header_Get r1 ''K-Revision''))))"
    unfolding assms(4) with_deactivate_def handler_getSession_def Let_def ..
  then show "handler_getSession r a =
           Inr (case explicit_header ''K-Session'' r1 a of
                  Some v \<Rightarrow> (r1, v)
                | None \<Rightarrow>
                    (case first_match
                            [configured_header ''activator.knative.dev/sticky-session-header-name'',
                             configured_query ''activator.knative.dev/sticky-session-query-parameter'',
                             configured_segment ''activator.knative.dev/sticky-session-path-segment''] r1 a of
                       Some v \<Rightarrow> (if v \<noteq> [] then Header_Add r1 ''K-Session'' v else r1, v)
                     | None \<Rightarrow>
                         (case first_match
                                 [configured_header ''activator.knative.dev/sticky-revision-header-name'',
                                  configured_query ''activator.knative.dev/sticky-revision-query-parameter'',
                                  configured_segment ''activator.knative.dev/sticky-revision-path-segment''] r1 a of
                            Some v \<Rightarrow> (r1, v)
                          | None \<Rightarrow> (r1, Header_Get r1 ''K-Revision''))))"
    unfolding seg rev
    by (simp add: explicit_header_def configured_header_def configured_query_def
        addStickySessionHeader_def split: option.splits)
next
  have seg: "path_segment (Request ctx) (annotation (Annotations ctx) ''activator.knative.dev/session-path'')
      = Inr (configured_segment ''activator.knative.dev/session-path'' (Request ctx) (Annotations ctx))"
    using assms(3) by (rule path_segment_rule)
  show "sessionFrom ctx =
           Inr (case first_match
                       [explicit_header ''K-Session'',
                        configured_header ''activator.knative.dev/session-header'',
                        configured_query ''activator.knative.dev/session-query'',
                        configured_segment ''activator.knative.dev/session-path'']
                       (Request ctx) (Annotations ctx) of
                  Some v \<Rightarrow> v
                | None \<Rightarrow> [])"
    unfolding sessionFrom_def Let_def seg
    by (simp add: explicit_header_def configured_header_def configured_query_def split: option.splits)
qed


theorem session_key_order_witness:
  "handler_getSession crowded_request crowded_annotations
     = Inr (Header_Add crowded_request ''K-Session'' ''h1'', ''h1'')
   \<and> handler_getSession revision_request (segment_annotations ''1'')
     = Inr (Header_Add revision_request ''K-Session'' ''b'', ''b'')
   \<and> handler_getSession revision_request (segment_annotations ''5'') = Inr (revision_request, ''r2'')
   \<and> sessionFrom (context_of (session_request ''abc'')) = Inr ''abc''"
proof -
  have n1: "index_not_negative crowded_annotations k"
    and n2: "index_not_negative (segment_annotations ''1'') k"
    and n3: "index_not_negative (segment_annotations ''5'') k"
    and n4: "index_not_negative (Annotations (context_of (session_request ''abc''))) k" for k
    by (simp_all add: index_not_negative_def crowded_annotations_def segment_annotations_def
        context_of_def annotation_def Atoi_def digit_def)
  have d: "crowded_request = with_deactivate crowded_request crowded_annotations"
    "revision_request = with_deactivate revision_request (segment_annotations ''1'')"
    "revision_request = with_deactivate revision_request (segment_annotations ''5'')"
    by (simp_all add: with_deactivate_def crowded_annotations_def segment_annotations_def annotation_def)
  have "handler_getSession crowded_request crowded_annotations
     = Inr (Header_Add crowded_request ''K-Session'' ''h1'', ''h1'')"
    using session_key_order [OF n1 n1 n4 d(1), THEN conjunct1]
    by (simp add: explicit_header_def configured_header_def crowded_request_def
        crowded_annotations_def annotation_def Header_Get_def)
  moreover have "handler_getSession revision_request (segment_annotations ''1'')
     = Inr (Header_Add revision_request ''K-Session'' ''b'', ''b'')"
    using session_key_order [OF n2 n2 n4 d(2), THEN conjunct1]
    by (simp add: explicit_header_def configured_header_def configured_query_def
        configured_segment_def revision_request_def segment_annotations_def annotation_def
        Header_Get_def Atoi_def digit_def TrimPrefix_def)
  moreover have "handler_getSession revision_request (segment_annotations ''5'') = Inr (revision_request, ''r2'')"
    using session_key_order [OF n3 n3 n4 d(3), THEN conjunct1]
    by (simp add: explicit_header_def configured_header_def configured_query_def
        configured_segment_def revision_request_def segment_annotations_def annotation_def
        Header_Get_def Atoi_def digit_def TrimPrefix_def)
  moreover have "sessionFrom (context_of (session_request ''abc'')) = Inr ''abc''"
    using session_key_order [OF n1 n1 n4 d(1), THEN conjunct2]
    by (simp add: explicit_header_def context_of_def session_request_def Header_Get_def)
  ultimately show ?thesis by blast
qed

text \<open>
  The claim as stated fails when an annotation configures a revision header: the request
  has no \<^verbatim>\<open>K-Session\<close> header, no \<^verbatim>\<open>sticky-session\<close> annotation is set and \<^verbatim>\<open>K-Revision\<close>
  is \<open>r2\<close>, but the key is the value \<open>r1\<close> of the header that the
  \<^verbatim>\<open>sticky-revision-header-name\<close> annotation names, and nothing is recorded back on the
  request.
\<close>

theorem session_key_order_counterexample:
  "Header_Get revision_request ''K-Session'' = []
   \<and> annotation revision_annotations ''activator.knative.dev/sticky-session-header-name'' = []
   \<and> annotation revision_annotations ''activator.knative.dev/sticky-session-query-parameter'' = []
   \<and> annotation revision_annotations ''activator.knative.dev/sticky-session-path-segment'' = []
   \<and> Header_Get revision_request ''K-Revision'' = ''r2''
   \<and> handler_getSession revision_request revision_annotations = Inr (revision_request, ''r1'')"
  by (simp add: handler_getSession_def revision_request_def revision_annotations_def
      Header_Get_def annotation_def path_segment_def)

section \<open>The sticky revision loop\<close>

lemma churn_step:
  assumes "churn st ''rev/abc'' \<noteq> Some v"
  shows "\<exists>g. store_CAS (churn st) ''rev/abc'' v (NamespacedName_String (''default'', ''rev-1'')) = (churn st, g)
           \<and> g \<noteq> NamespacedName_String (''default'', ''rev-1'')
           \<and> (\<exists>name. SplitN2 CHR ''/'' g = [''default'', name])
           \<and> churn (churn st) ''rev/abc'' \<noteq> Some g"
proof (cases "st ''rev/abc'' = Some ''default/gone-1''")
  case True
  then have "churn st ''rev/abc'' = Some ''default/gone-2''" by (simp add: churn_def)
  with assms have "store_CAS (churn st) ''rev/abc'' v (NamespacedName_String (''default'', ''rev-1''))
      = (churn st, ''default/gone-2'')
    \<and> ''default/gone-2'' \<noteq> NamespacedName_String (''default'', ''rev-1'')
    \<and> SplitN2 CHR ''/'' ''default/gone-2'' = [''default'', ''gone-2'']
    \<and> churn (churn st) ''rev/abc'' \<noteq> Some ''default/gone-2''"
    by (simp add: store_CAS_def store_Get_def NamespacedName_String_def SplitN2_def churn_def)
  then show ?thesis by blast
next
  case False
  then have "churn st ''rev/abc'' = Some ''default/gone-1''" by (simp add: churn_def)
  with assms have "store_CAS (churn st) ''rev/abc'' v (NamespacedName_String (''default'', ''rev-1''))
      = (churn st, ''default/gone-1'')
    \<and> ''default/gone-1'' \<noteq> NamespacedName_String (''default'', ''rev-1'')
    \<and> SplitN2 CHR ''/'' ''default/gone-1'' = [''default'', ''gone-1'']
    \<and> churn (churn st) ''rev/abc'' \<noteq> Some ''default/gone-1''"
    by (simp add: store_CAS_def store_Get_def NamespacedName_String_def SplitN2_def churn_def)
  then show ?thesis by blast
qed

lemma sticky_loop_churn_no_result:
  assumes "sticky_loop cas others lister key revID revision st v n = Some y"
  shows "cas = store_CAS \<longrightarrow> others = churn \<longrightarrow> lister = no_revisions \<longrightarrow> key = ''rev/abc'' \<longrightarrow>
         revID = (''default'', ''rev-1'') \<longrightarrow> churn st ''rev/abc'' \<noteq> Some v \<longrightarrow> False"
proof (rule sticky_loop.raw_induct
    [where P = "\<lambda>cas others lister key revID revision st v n y.
         cas = store_CAS \<longrightarrow> others = churn \<longrightarrow> lister = no_revisions \<longrightarrow> key = ''rev/abc'' \<longrightarrow>
         revID = (''default'', ''rev-1'') \<longrightarrow> churn st ''rev/abc'' \<noteq> Some v \<longrightarrow> False",
     OF _ assms])
  fix loop :: "(kvstore \<Rightarrow> string \<Rightarrow> string \<Rightarrow> string \<Rightarrow> kvstore \<times> string) \<Rightarrow> (kvstore \<Rightarrow> kvstore)
     \<Rightarrow> (string \<Rightarrow> string \<Rightarrow> string option) \<Rightarrow> string \<Rightarrow> NamespacedName \<Rightarrow> string
     \<Rightarrow> kvstore \<Rightarrow> string \<Rightarrow> nat \<Rightarrow> (failure + string resolved) option"
    and cas others lister key revID revision st v n y
  assume IH: "\<And>cas others lister key revID revision st v n y.
      loop cas others lister key revID revision st v n = Some y \<Longrightarrow>
      cas = store_CAS \<longrightarrow> others = churn \<longrightarrow> lister = no_revisions \<longrightarrow> key = ''rev/abc'' \<longrightarrow>
      revID = (''default'', ''rev-1'') \<longrightarrow> churn st ''rev/abc'' \<noteq> Some v \<longrightarrow> False"
    and body: "(case cas (others st) key v (NamespacedName_String revID) of
        (st', v') \<Rightarrow>
          if v' = NamespacedName_String revID then Some (Inr (revID, revision, st', Suc n))
          else
            (case SplitN2 CHR ''/'' v' of
               namespace # name # _ \<Rightarrow>
                 (case lister namespace name of
                    Some stickyRevision \<Rightarrow> Some (Inr ((namespace, name), stickyRevision, st', Suc n))
                  | None \<Rightarrow> loop cas others lister key revID revision st' v' (Suc n))
             | _ \<Rightarrow> Some (Inl IndexOutOfRange))) = Some y"
  show "cas = store_CAS \<longrightarrow> others = churn \<longrightarrow> lister = no_revisions \<longrightarrow> key = ''rev/abc'' \<longrightarrow>
         revID = (''default'', ''rev-1'') \<longrightarrow> churn st ''rev/abc'' \<noteq> Some v \<longrightarrow> False"
  proof (intro impI)
    assume eqs: "cas = store_CAS" "others = churn" "lister = no_revisions" "key = ''rev/abc''"
      "revID = (''default'', ''rev-1'')"
      and inv: "churn st ''rev/abc'' \<noteq> Some v"
    from churn_step [OF inv] obtain g name where
      c: "store_CAS (churn st) ''rev/abc'' v (NamespacedName_String (''default'', ''rev-1'')) = (churn st, g)"
      and g: "g \<noteq> NamespacedName_String (''default'', ''rev-1'')"
      and sp: "SplitN2 CHR ''/'' g = [''default'', name]"
      and inv': "churn (churn st) ''rev/abc'' \<noteq> Some g"
      by blast
    have "loop cas others lister key revID revision (churn st) g (Suc n) = Some y"
      using body unfolding eqs by (simp add: c g sp no_revisions_def)
    from IH [OF this] eqs inv' show False by blast
  qed
qed

lemma sticky_loop_churn_diverges:
  "sticky_loop store_CAS churn no_revisions ''rev/abc'' (''default'', ''rev-1'') ''revision-1''
     Map.empty [] 0 = None"
proof -
  have inv: "churn Map.empty ''rev/abc'' \<noteq> Some []"
    by (simp add: churn_def)
  have "sticky_loop store_CAS churn no_revisions ''rev/abc'' (''default'', ''rev-1'') ''revision-1''
          Map.empty [] 0 \<noteq> Some y" for y
    using sticky_loop_churn_no_result [of store_CAS churn no_revisions "''rev/abc''"
        "(''default'', ''rev-1'')" "''revision-1''" Map.empty "[]" 0 y] inv
    by blast
  then show ?thesis
    by (cases "sticky_loop store_CAS churn no_revisions ''rev/abc'' (''default'', ''rev-1'') ''revision-1''
          Map.empty [] 0") auto
qed

text \<open>
  C1 fails as stated: the loop has no bound.  With \<open>churn\<close> as the other client the
  request with session key \<open>abc\<close> never leaves the loop.
\<close>

theorem sticky_loop_unbounded_counterexample:
  "ServeHTTP_sticky store_CAS churn no_revisions (session_request ''abc'') Map.empty
     (''default'', ''rev-1'') ''revision-1'' Map.empty = None"
proof -
  have k: "handler_getSession (session_request ''abc'') Map.empty = Inr (session_request ''abc'', ''abc'')"
    by (simp add: handler_getSession_def session_request_def annotation_def Header_Get_def)
  have inv: "churn Map.empty ''rev/abc'' \<noteq> Some []"
    by (simp add: churn_def)
  have "sticky_loop store_CAS churn no_revisions ''rev/abc'' (''default'', ''rev-1'') ''revision-1''
          Map.empty [] 0 \<noteq> Some y" for y
    using sticky_loop_churn_no_result [of store_CAS churn no_revisions "''rev/abc''"
        "(''default'', ''rev-1'')" "''revision-1''" Map.empty "[]" 0 y] inv
    by blast
  then have "sticky_loop store_CAS churn no_revisions ''rev/abc'' (''default'', ''rev-1'') ''revision-1''
          Map.empty [] 0 = None"
    by (cases "sticky_loop store_CAS churn no_revisions ''rev/abc'' (''default'', ''rev-1'') ''revision-1''
          Map.empty [] 0") auto
  then show ?thesis
    by (simp add: ServeHTTP_sticky_def k)
qed


lemma sticky_loop_swapped:
  assumes "cas (others st) key v (NamespacedName_String revID) = (st', NamespacedName_String revID)"
  shows "sticky_loop cas others lister key revID revision st v n = Some (Inr (revID, revision, st', Suc n))"
  by (subst sticky_loop.simps) (simp add: assms)

lemma sticky_loop_malformed:
  assumes "cas (others st) key v (NamespacedName_String revID) = (st', v')"
    and "v' \<noteq> NamespacedName_String revID" and "CHR ''/'' \<notin> set v'"
  shows "sticky_loop cas others lister key revID revision st v n = Some (Inl IndexOutOfRange)"
  by (subst sticky_loop.simps) (simp add: assms SplitN2_def)

lemma sticky_loop_resolved:
  assumes "cas (others st) key v (NamespacedName_String revID) = (st', v')"
    and "v' \<noteq> NamespacedName_String revID" and "SplitN2 CHR ''/'' v' = namespace # name # rest"
    and "lister namespace name = Some stickyRevision"
  shows "sticky_loop cas others lister key revID revision st v n
         = Some (Inr ((namespace, name), stickyRevision, st', Suc n))"
  by (subst sticky_loop.simps) (simp add: assms)

lemma sticky_loop_retry:
  assumes "cas (others st) key v (NamespacedName_String revID) = (st', v')"
    and "v' \<noteq> NamespacedName_String revID" and "SplitN2 CHR ''/'' v' = namespace # name # rest"
    and "lister namespace name = None"
  shows "sticky_loop cas others lister key revID revision st v n
         = sticky_loop cas others lister key revID revision st' v' (Suc n)"
  by (subst sticky_loop.simps) (simp add: assms)

lemma NamespacedName_String_not_empty: "NamespacedName_String n \<noteq> []"
  by (simp add: NamespacedName_String_def)

lemma store_CAS_desired:
  assumes "store_CAS st k e d = (st', d)" and "d \<noteq> []"
  shows "st' k = Some d"
  using assms by (auto simp: store_CAS_def store_Get_def split: if_splits option.splits)

lemma store_CAS_observed:
  assumes "store_CAS st k e d = (st', v')" and "v' \<noteq> d" and "v' \<noteq> []"
  shows "st' k = Some v'"
  using assms by (auto simp: store_CAS_def store_Get_def split: if_splits option.splits)

lemma SplitN2_two:
  assumes "SplitN2 c v = namespace # name # rest"
  shows "v = namespace @ c # name" and "v \<noteq> []"
proof -
  from assms have in_v: "c \<in> set v"
    and ns: "namespace = takeWhile (\<lambda>x. x \<noteq> c) v" and nm: "name = tl (dropWhile (\<lambda>x. x \<noteq> c) v)"
    by (auto simp: SplitN2_def split: if_splits)
  from in_v have ne: "dropWhile (\<lambda>x. x \<noteq> c) v \<noteq> []"
    by (auto simp: dropWhile_eq_Nil_conv)
  then have "hd (dropWhile (\<lambda>x. x \<noteq> c) v) = c"
    using hd_dropWhile [of "\<lambda>x. x \<noteq> c" v] by simp
  with ne have "dropWhile (\<lambda>x. x \<noteq> c) v = c # name"
    unfolding nm by (cases "dropWhile (\<lambda>x. x \<noteq> c) v") auto
  then show "v = namespace @ c # name"
    unfolding ns using takeWhile_dropWhile_id [of "\<lambda>x. x \<noteq> c" v] by simp
  from in_v show "v \<noteq> []" by auto
qed

lemma sticky_loop_result:
  fixes lister :: "string \<Rightarrow> string \<Rightarrow> 'rev option"
  assumes "sticky_loop cas others lister key revID revision st v n = Some y"
  shows "cas = store_CAS \<longrightarrow>
         (\<forall>rid rv st' m. y = Inr (rid, rv, st', m) \<longrightarrow>
            (rid = revID \<and> rv = revision \<and> st' key = Some (NamespacedName_String revID))
          \<or> (lister (fst rid) (snd rid) = Some rv \<and> st' key = Some (NamespacedName_String rid)
              \<and> NamespacedName_String rid \<noteq> NamespacedName_String revID))"
proof (rule sticky_loop.raw_induct
    [where P = "\<lambda>cas others lister key revID revision st v n y.
         cas = store_CAS \<longrightarrow>
         (\<forall>rid rv st' m. y = Inr (rid, rv, st', m) \<longrightarrow>
            (rid = revID \<and> rv = revision \<and> st' key = Some (NamespacedName_String revID))
          \<or> (lister (fst rid) (snd rid) = Some rv \<and> st' key = Some (NamespacedName_String rid)
              \<and> NamespacedName_String rid \<noteq> NamespacedName_String revID))",
     OF _ assms])
  fix loop :: "(kvstore \<Rightarrow> string \<Rightarrow> string \<Rightarrow> string \<Rightarrow> kvstore \<times> string) \<Rightarrow> (kvstore \<Rightarrow> kvstore)
     \<Rightarrow> (string \<Rightarrow> string \<Rightarrow> 'rev option) \<Rightarrow> string \<Rightarrow> NamespacedName \<Rightarrow> 'rev
     \<Rightarrow> kvstore \<Rightarrow> string \<Rightarrow> nat \<Rightarrow> (failure + 'rev resolved) option"
    and cas others and lister :: "string \<Rightarrow> string \<Rightarrow> 'rev option" and key revID revision st v n y
  assume IH: "\<And>cas others lister key revID revision st v n y.
      loop cas others lister key revID revision st v n = Some y \<Longrightarrow>
      cas = store_CAS \<longrightarrow>
         (\<forall>rid rv st' m. y = Inr (rid, rv, st', m) \<longrightarrow>
            (rid = revID \<and> rv = revision \<and> st' key = Some (NamespacedName_String revID))
          \<or> (lister (fst rid) (snd rid) = Some rv \<and> st' key = Some (NamespacedName_String rid)
              \<and> NamespacedName_String rid \<noteq> NamespacedName_String revID))"
    and body: "(case cas (others st) key v (NamespacedName_String revID) of
        (st', v') \<Rightarrow>
          if v' = NamespacedName_String revID then Some (Inr (revID, revision, st', Suc n))
          else
            (case SplitN2 CHR ''/'' v' of
               namespace # name # _ \<Rightarrow>
                 (case lister namespace name of
                    Some stickyRevision \<Rightarrow> Some (Inr ((namespace, name), stickyRevision, st', Suc n))
                  | None \<Rightarrow> loop cas others lister key revID revision st' v' (Suc n))
             | _ \<Rightarrow> Some (Inl IndexOutOfRange))) = Some y"
  let ?rs = "NamespacedName_String revID"
  show "cas = store_CAS \<longrightarrow>
         (\<forall>rid rv st' m. y = Inr (rid, rv, st', m) \<longrightarrow>
            (rid = revID \<and> rv = revision \<and> st' key = Some ?rs)
          \<or> (lister (fst rid) (snd rid) = Some rv \<and> st' key = Some (NamespacedName_String rid)
              \<and> NamespacedName_String rid \<noteq> ?rs))"
  proof (intro impI allI)
    fix rid rv st' m
    assume cas: "cas = store_CAS" and y: "y = Inr (rid, rv, st', m)"
    obtain st1 v1 where c: "store_CAS (others st) key v ?rs = (st1, v1)"
      by (cases "store_CAS (others st) key v ?rs") auto
    show "(rid = revID \<and> rv = revision \<and> st' key = Some ?rs)
          \<or> (lister (fst rid) (snd rid) = Some rv \<and> st' key = Some (NamespacedName_String rid)
              \<and> NamespacedName_String rid \<noteq> ?rs)"
    proof (cases "v1 = ?rs")
      case True
      with body cas c y have "rid = revID" "rv = revision" "st' = st1" by simp_all
      moreover have "st1 key = Some ?rs"
        using c True by (intro store_CAS_desired [of "others st" key v]) (simp_all add: NamespacedName_String_not_empty)
      ultimately show ?thesis by simp
    next
      case False
      show ?thesis
      proof (cases "SplitN2 CHR ''/'' v1")
        case Nil
        with body cas c y False show ?thesis by simp
      next
        case (Cons namespace ps)
        show ?thesis
        proof (cases ps)
          case Nil
          with body cas c y False Cons show ?thesis by simp
        next
          case (Cons name rest)
          with \<open>SplitN2 CHR ''/'' v1 = namespace # ps\<close>
          have sp: "SplitN2 CHR ''/'' v1 = namespace # name # rest" by simp
          have v1: "v1 = NamespacedName_String (namespace, name)" "v1 \<noteq> []"
            using SplitN2_two [OF sp] by (simp_all add: NamespacedName_String_def)
          have k1: "st1 key = Some v1"
            using c False v1(2) by (rule store_CAS_observed)
          show ?thesis
          proof (cases "lister namespace name")
            case (Some stickyRevision)
            with body cas c y False sp
            have "rid = (namespace, name)" "rv = stickyRevision" "st' = st1" by simp_all
            with Some k1 v1(1) False show ?thesis by simp
          next
            case None
            with body cas c False sp
            have "loop cas others lister key revID revision st1 v1 (Suc n) = Some y" by simp
            from IH [OF this] cas y show ?thesis by blast
          qed
        qed
      qed
    qed
  qed
qed


lemma sticky_loop_alone_result:
  assumes "store_Get st key = [] \<or> CHR ''/'' \<in> set (store_Get st key)"
  shows "sticky_loop store_CAS id lister key revID revision st [] 0 =
     Some (Inr (let c = store_Get st key; rs = NamespacedName_String revID;
                    namespace = takeWhile (\<lambda>x. x \<noteq> CHR ''/'') c;
                    name = tl (dropWhile (\<lambda>x. x \<noteq> CHR ''/'') c)
                in if c = [] then (revID, revision, st(key \<mapsto> rs), 1)
                   else if c = rs then (revID, revision, st, 1)
                   else (case lister namespace name of
                           Some stickyRevision \<Rightarrow> ((namespace, name), stickyRevision, st, 1)
                         | None \<Rightarrow> (revID, revision, st(key \<mapsto> rs), 2))))"
proof -
  let ?rs = "NamespacedName_String revID"
  let ?c = "store_Get st key"
  let ?ns = "takeWhile (\<lambda>x. x \<noteq> CHR ''/'') ?c"
  let ?nm = "tl (dropWhile (\<lambda>x. x \<noteq> CHR ''/'') ?c)"
  show ?thesis
  proof (cases "?c = []")
    case True
    then have "store_CAS (id st) key [] ?rs = (st(key \<mapsto> ?rs), ?rs)"
      by (auto simp: store_CAS_def store_Get_def split: option.splits)
    then have "sticky_loop store_CAS id lister key revID revision st [] 0
        = Some (Inr (revID, revision, st(key \<mapsto> ?rs), Suc 0))"
      by (rule sticky_loop_swapped)
    with True show ?thesis by simp
  next
    case False
    then have k: "st key = Some ?c"
      by (auto simp: store_Get_def split: option.splits)
    with False have c: "store_CAS (id st) key [] ?rs = (st, ?c)"
      by (simp add: store_CAS_def)
    show ?thesis
    proof (cases "?c = ?rs")
      case True
      with c have "sticky_loop store_CAS id lister key revID revision st [] 0
          = Some (Inr (revID, revision, st, Suc 0))"
        by (intro sticky_loop_swapped) simp
      with False True show ?thesis by simp
    next
      case ne: False
      have sp: "SplitN2 CHR ''/'' ?c = ?ns # ?nm # []"
        using assms False by (simp add: SplitN2_def)
      show ?thesis
      proof (cases "lister ?ns ?nm")
        case (Some stickyRevision)
        with c ne sp have "sticky_loop store_CAS id lister key revID revision st [] 0
            = Some (Inr ((?ns, ?nm), stickyRevision, st, Suc 0))"
          by (intro sticky_loop_resolved)
        with False ne Some show ?thesis by (simp add: Let_def)
      next
        case None
        with c ne sp have "sticky_loop store_CAS id lister key revID revision st [] 0
            = sticky_loop store_CAS id lister key revID revision st ?c (Suc 0)"
          by (intro sticky_loop_retry)
        moreover have "store_CAS (id st) key ?c ?rs = (st(key \<mapsto> ?rs), ?rs)"
          using k by (simp add: store_CAS_def)
        then have "sticky_loop store_CAS id lister key revID revision st ?c (Suc 0)
            = Some (Inr (revID, revision, st(key \<mapsto> ?rs), Suc (Suc 0)))"
          by (rule sticky_loop_swapped)
        ultimately show ?thesis using False ne None by (simp add: Let_def)
      qed
    qed
  qed
qed

text \<open>
  C1, as the code has it.  The loop is not bounded by a retry count and has no failure for
  exhausted retries: with \<open>churn\<close> as the other client it does not return (last
  equation).  Whatever the other clients of the store do, when the loop returns a revision
  then either the request's own revision identity is under the key and the revision
  identified from the request is kept, or the identity under the key is that of another
  revision which the lister resolves, and that revision overrides the request's.  When no
  other client writes the key between the attempts (\<open>others\<close> is the identity) and the key
  is absent, empty or holds a value with a separator, the loop ends after at most two
  compare-and-swap calls: after one with the request's own revision, bound now, when the
  key was absent or empty; after one with the request's own revision when the key held
  its identity already; after one with the sticky revision when the key held an identity
  that resolves; after two with the request's own revision, bound by the second call, when
  the key held an identity that does not resolve.
\<close>

theorem sticky_loop_exits:
  "(sticky_loop store_CAS others lister key revID revision st v n = Some (Inr (rid, rv, st', m)) \<longrightarrow>
      (rid = revID \<and> rv = revision \<and> st' key = Some (NamespacedName_String revID))
    \<or> (lister (fst rid) (snd rid) = Some rv \<and> st' key = Some (NamespacedName_String rid)
        \<and> NamespacedName_String rid \<noteq> NamespacedName_String revID))
   \<and> (store_Get st key = [] \<or> CHR ''/'' \<in> set (store_Get st key) \<longrightarrow>
      sticky_loop store_CAS id lister key revID revision st [] 0 =
        Some (Inr (let c = store_Get st key; rs = NamespacedName_String revID;
                       namespace = takeWhile (\<lambda>x. x \<noteq> CHR ''/'') c;
                       name = tl (dropWhile (\<lambda>x. x \<noteq> CHR ''/'') c)
                   in if c = [] then (revID, revision, st(key \<mapsto> rs), 1)
                      else if c = rs then (revID, revision, st, 1)
                      else (case lister namespace name of
                              Some stickyRevision \<Rightarrow> ((namespace, name), stickyRevision, st, 1)
                            | None \<Rightarrow> (revID, revision, st(key \<mapsto> rs), 2)))))
   \<and> sticky_loop store_CAS churn no_revisions ''rev/abc'' (''default'', ''rev-1'') ''revision-1''
       Map.empty [] 0 = None"
proof (intro conjI impI)
  show "sticky_loop store_CAS churn no_revisions ''rev/abc'' (''default'', ''rev-1'') ''revision-1''
       Map.empty [] 0 = None"
    by (rule sticky_loop_churn_diverges)
next
  assume "sticky_loop store_CAS others lister key revID revision st v n = Some (Inr (rid, rv, st', m))"
  from sticky_loop_result [OF this]
  show "(rid = revID \<and> rv = revision \<and> st' key = Some (NamespacedName_String revID))
    \<or> (lister (fst rid) (snd rid) = Some rv \<and> st' key = Some (NamespacedName_String rid)
        \<and> NamespacedName_String rid \<noteq> NamespacedName_String revID)"
    by blast
next
  assume "store_Get st key = [] \<or> CHR ''/'' \<in> set (store_Get st key)"
  then show "sticky_loop store_CAS id lister key revID revision st [] 0 =
        Some (Inr (let c = store_Get st key; rs = NamespacedName_String revID;
                       namespace = takeWhile (\<lambda>x. x \<noteq> CHR ''/'') c;
                       name = tl (dropWhile (\<lambda>x. x \<noteq> CHR ''/'') c)
                   in if c = [] then (revID, revision, st(key \<mapsto> rs), 1)
                      else if c = rs then (revID, revision, st, 1)
                      else (case lister namespace name of
                              Some stickyRevision \<Rightarrow> ((namespace, name), stickyRevision, st, 1)
                            | None \<Rightarrow> (revID, revision, st(key \<mapsto> rs), 2))))"
    by (rule sticky_loop_alone_result)
qed

theorem sticky_loop_exits_witness:
  "sticky_loop store_CAS id one_revision ''rev/abc'' (''default'', ''rev-1'') ''revision-1''
       Map.empty [] 0
     = Some (Inr ((''default'', ''rev-1''), ''revision-1'', [''rev/abc'' \<mapsto> ''default/rev-1''], 1))
   \<and> sticky_loop store_CAS id one_revision ''rev/abc'' (''default'', ''rev-1'') ''revision-1''
       [''rev/abc'' \<mapsto> ''default/rev-2''] [] 0
     = Some (Inr ((''default'', ''rev-2''), ''revision-2'', [''rev/abc'' \<mapsto> ''default/rev-2''], 1))
   \<and> sticky_loop store_CAS id one_revision ''rev/abc'' (''default'', ''rev-1'') ''revision-1''
       [''rev/abc'' \<mapsto> ''default/gone''] [] 0
     = Some (Inr ((''default'', ''rev-1''), ''revision-1'', [''rev/abc'' \<mapsto> ''default/rev-1''], 2))
   \<and> (one_revision ''default'' ''rev-2'' = Some ''revision-2''
      \<and> [''rev/abc'' \<mapsto> ''default/rev-2''] ''rev/abc'' = Some (NamespacedName_String (''default'', ''rev-2'')))"
proof -
  note absent = sticky_loop_exits [of id one_revision "''rev/abc''" "(''default'', ''rev-1'')"
      "''revision-1''" Map.empty "[]" 0, THEN conjunct2, THEN conjunct1]
  note sticky = sticky_loop_exits [of id one_revision "''rev/abc''" "(''default'', ''rev-1'')"
      "''revision-1''" "[''rev/abc'' \<mapsto> ''default/rev-2'']" "[]" 0
      "(''default'', ''rev-2'')" "''revision-2''" "[''rev/abc'' \<mapsto> ''default/rev-2'']" 1]
  note stale = sticky_loop_exits [of id one_revision "''rev/abc''" "(''default'', ''rev-1'')"
      "''revision-1''" "[''rev/abc'' \<mapsto> ''default/gone'']" "[]" 0, THEN conjunct2, THEN conjunct1]
  have a: "sticky_loop store_CAS id one_revision ''rev/abc'' (''default'', ''rev-1'') ''revision-1''
       Map.empty [] 0
     = Some (Inr ((''default'', ''rev-1''), ''revision-1'', [''rev/abc'' \<mapsto> ''default/rev-1''], 1))"
    using absent by (simp add: store_Get_def NamespacedName_String_def Let_def)
  have b: "sticky_loop store_CAS id one_revision ''rev/abc'' (''default'', ''rev-1'') ''revision-1''
       [''rev/abc'' \<mapsto> ''default/rev-2''] [] 0
     = Some (Inr ((''default'', ''rev-2''), ''revision-2'', [''rev/abc'' \<mapsto> ''default/rev-2''], 1))"
    using sticky [THEN conjunct2, THEN conjunct1]
    by (simp add: store_Get_def NamespacedName_String_def one_revision_def Let_def)
  have c: "sticky_loop store_CAS id one_revision ''rev/abc'' (''default'', ''rev-1'') ''revision-1''
       [''rev/abc'' \<mapsto> ''default/gone''] [] 0
     = Some (Inr ((''default'', ''rev-1''), ''revision-1'', [''rev/abc'' \<mapsto> ''default/rev-1''], 2))"
    using stale by (simp add: store_Get_def NamespacedName_String_def one_revision_def Let_def)
  have d: "one_revision ''default'' ''rev-2'' = Some ''revision-2''
      \<and> [''rev/abc'' \<mapsto> ''default/rev-2''] ''rev/abc'' = Some (NamespacedName_String (''default'', ''rev-2''))"
    using sticky [THEN conjunct1, THEN mp, OF b] by (simp add: NamespacedName_String_def)
  from a b c d show ?thesis by blast
qed

text \<open>
  C2 against the code.  The key \<open>rev/abc\<close> holds a value without separator: here the pod
  address that the first-available policy stores under it for a request whose session key
  is \<open>rev/abc\<close> (first equation).  A request with the session key \<open>abc\<close> then reads that
  value back from its compare-and-swap, and the handler panics with an index out of range
  at \<^verbatim>\<open>parts[1]\<close> instead of going on with the revision it had identified.
\<close>

theorem malformed_sticky_value_panics:
  "firstAvailableLBPolicy (context_of (session_request ''rev/abc'')) [backend ''10.0.0.1'' 0 0 1] Map.empty
     = Inr (cb 0, Some 0, [backend ''10.0.0.1'' 0 1 1], [''rev/abc'' \<mapsto> ''10.0.0.1''])
   \<and> ServeHTTP_sticky store_CAS id one_revision (session_request ''abc'') Map.empty
       (''default'', ''rev-1'') ''revision-1'' [''rev/abc'' \<mapsto> ''10.0.0.1'']
     = Some (Inl IndexOutOfRange)"
proof
  have s: "sessionFrom (context_of (session_request ''rev/abc'')) = Inr ''rev/abc''"
    by (rule sessionFrom_session) simp
  have g: "getSession (context_of (session_request ''rev/abc'')) [backend ''10.0.0.1'' 0 0 1] Map.empty
      = Inr (None, Map.empty)"
    by (simp add: getSession_def s store_Get_def store_Del_def)
  have "firstAvailable_select (context_of (session_request ''rev/abc'')) [backend ''10.0.0.1'' 0 0 1] Map.empty 0
      = Inr (cb 0, Some 0, [backend ''10.0.0.1'' 0 1 1], [''rev/abc'' \<mapsto> ''10.0.0.1''])"
    by (subst firstAvailable_select.simps)
       (simp add: Reserve_def backend_def setSession_def s store_Get_def store_Set_def)
  then show "firstAvailableLBPolicy (context_of (session_request ''rev/abc'')) [backend ''10.0.0.1'' 0 0 1] Map.empty
     = Inr (cb 0, Some 0, [backend ''10.0.0.1'' 0 1 1], [''rev/abc'' \<mapsto> ''10.0.0.1''])"
    unfolding firstAvailableLBPolicy_def g by simp
next
  have k: "handler_getSession (session_request ''abc'') Map.empty = Inr (session_request ''abc'', ''abc'')"
    by (simp add: handler_getSession_def session_request_def annotation_def Header_Get_def)
  have c: "store_CAS (id [''rev/abc'' \<mapsto> ''10.0.0.1'']) ''rev/abc'' []
             (NamespacedName_String (''default'', ''rev-1''))
           = ([''rev/abc'' \<mapsto> ''10.0.0.1''], ''10.0.0.1'')"
    by (simp add: store_CAS_def store_Get_def)
  have "sticky_loop store_CAS id one_revision ''rev/abc'' (''default'', ''rev-1'') ''revision-1''
          [''rev/abc'' \<mapsto> ''10.0.0.1''] [] 0 = Some (Inl IndexOutOfRange)"
    using c by (rule sticky_loop_malformed) (simp_all add: NamespacedName_String_def)
  then show "ServeHTTP_sticky store_CAS id one_revision (session_request ''abc'') Map.empty
       (''default'', ''rev-1'') ''revision-1'' [''rev/abc'' \<mapsto> ''10.0.0.1'']
     = Some (Inl IndexOutOfRange)"
    by (simp add: ServeHTTP_sticky_def k)
qed

section \<open>Interleaved requests\<close>

lemma first_free_Some:
  "first_free ts = Some i \<longleftrightarrow>
     i < length ts \<and> outstanding (ts ! i) < capacity (ts ! i)
     \<and> (\<forall>j<i. \<not> outstanding (ts ! j) < capacity (ts ! j))"
proof (induction ts arbitrary: i)
  case Nil
  show ?case by simp
next
  case (Cons t ts)
  show ?case
  proof (cases "outstanding t < capacity t")
    case True
    then show ?thesis by (cases i) auto
  next
    case False
    show ?thesis
    proof (cases i)
      case 0
      with False show ?thesis by auto
    next
      case (Suc k)
      have "(\<forall>j<Suc k. \<not> outstanding ((t # ts) ! j) < capacity ((t # ts) ! j))
            \<longleftrightarrow> (\<forall>j<k. \<not> outstanding (ts ! j) < capacity (ts ! j))"
        using False by (auto simp: less_Suc_eq_0_disj)
      with False Suc Cons.IH [of k] show ?thesis by auto
    qed
  qed
qed

lemma first_free_None: "first_free ts = None \<longleftrightarrow> (\<forall>t\<in>set ts. \<not> outstanding t < capacity t)"
  by (induction ts) auto

lemma firstAvailable_select_first_free:
  "firstAvailable_select ctx targets st 0 =
     (case first_free targets of
        None \<Rightarrow> Inr (noop, None, targets, st)
      | Some i \<Rightarrow>
          (case setSession ctx ((targets ! i)\<lparr>outstanding := outstanding (targets ! i) + 1\<rparr>) st of
             Inl e \<Rightarrow> Inl e
           | Inr (ok, st') \<Rightarrow>
               if \<not> ok then Inr (noop, None, targets, st')
               else Inr (cb i, Some i,
                         targets[i := (targets ! i)\<lparr>outstanding := outstanding (targets ! i) + 1\<rparr>], st')))"
proof (cases "first_free targets")
  case None
  then have "\<forall>t\<in>set targets. \<not> outstanding t < capacity t" by (simp add: first_free_None)
  then show ?thesis using None by (simp add: firstAvailable_select_none)
next
  case (Some i)
  then have "i < length targets" "outstanding (targets ! i) < capacity (targets ! i)"
    "\<forall>j<i. \<not> outstanding (targets ! j) < capacity (targets ! j)"
    by (simp_all add: first_free_Some)
  then show ?thesis using Some by (simp add: firstAvailable_select_at [of i])
qed

lemma firstAvailable_steps_Returned:
  "firstAvailable_steps k ctx (Returned c pick, w) = (Returned c pick, w)"
  by (induction k) simp_all

lemma firstAvailable_steps_from_scan:
  assumes "sessionFrom ctx = Inr s"
  shows "\<exists>c pick targets' st'.
           firstAvailable_steps (Suc (Suc (Suc k))) ctx (AtScan, targets, st) = (Returned c pick, targets', st')
         \<and> firstAvailable_select ctx targets st 0 = Inr (c, pick, targets', st')"
proof (cases "first_free targets")
  case None
  then have "firstAvailable_step ctx AtScan (targets, st) = (Returned noop None, targets, st)"
    by simp
  then have "firstAvailable_steps (Suc (Suc (Suc k))) ctx (AtScan, targets, st) = (Returned noop None, targets, st)"
    by (simp only: firstAvailable_steps.simps firstAvailable_steps_Returned)
  moreover have "firstAvailable_select ctx targets st 0 = Inr (noop, None, targets, st)"
    using None by (simp add: firstAvailable_select_first_free)
  ultimately show ?thesis by blast
next
  case (Some i)
  let ?t = "(targets ! i)\<lparr>outstanding := outstanding (targets ! i) + 1\<rparr>"
  let ?ts = "targets[i := ?t]"
  have i: "i < length targets" using Some by (simp add: first_free_Some)
  then have nth: "?ts ! i = ?t" by simp
  have scan: "firstAvailable_step ctx AtScan (targets, st) = (AtCheck i, ?ts, st)"
    using Some by simp
  have sel: "firstAvailable_select ctx targets st 0 =
      (case setSession ctx ?t st of
         Inl e \<Rightarrow> Inl e
       | Inr (ok, st') \<Rightarrow>
           if \<not> ok then Inr (noop, None, targets, st') else Inr (cb i, Some i, ?ts, st'))"
    using Some by (simp add: firstAvailable_select_first_free)
  have restored: "?ts[i := release ?t] = targets"
    by (simp add: release_Reserve)
  consider (nokey) "s = []"
    | (conflict) "s \<noteq> []" "store_Get st s \<noteq> []" "store_Get st s \<noteq> dest (targets ! i)"
    | (free) "s \<noteq> []" "store_Get st s = [] \<or> store_Get st s = dest (targets ! i)"
    by blast
  then show ?thesis
  proof cases
    case nokey
    have "firstAvailable_step ctx (AtCheck i) (?ts, st) = (Returned (cb i) (Some i), ?ts, st)"
      using assms nokey by simp
    then have "firstAvailable_steps (Suc (Suc (Suc k))) ctx (AtScan, targets, st) = (Returned (cb i) (Some i), ?ts, st)"
      by (simp only: firstAvailable_steps.simps scan firstAvailable_steps_Returned)
    moreover have "setSession ctx ?t st = Inr (True, st)"
      using assms nokey by (simp add: setSession_def)
    then have "firstAvailable_select ctx targets st 0 = Inr (cb i, Some i, ?ts, st)"
      by (simp add: sel)
    ultimately show ?thesis by blast
  next
    case conflict
    have "firstAvailable_step ctx (AtCheck i) (?ts, st) = (Returned noop None, ?ts[i := release (?ts ! i)], st)"
      using assms conflict i by simp
    then have "firstAvailable_step ctx (AtCheck i) (?ts, st) = (Returned noop None, targets, st)"
      by (simp only: nth restored)
    then have "firstAvailable_steps (Suc (Suc (Suc k))) ctx (AtScan, targets, st) = (Returned noop None, targets, st)"
      by (simp only: firstAvailable_steps.simps scan firstAvailable_steps_Returned)
    moreover have "setSession ctx ?t st = Inr (False, st)"
      using assms conflict by (simp add: setSession_def)
    then have "firstAvailable_select ctx targets st 0 = Inr (noop, None, targets, st)"
      by (simp add: sel)
    ultimately show ?thesis by blast
  next
    case free
    have chk: "firstAvailable_step ctx (AtCheck i) (?ts, st) = (AtWrite i, ?ts, st)"
      using assms free i by auto
    have wr: "firstAvailable_step ctx (AtWrite i) (?ts, st)
        = (Returned (cb i) (Some i), ?ts, store_Set st s (dest (targets ! i)))"
      using assms i by simp
    have "firstAvailable_steps (Suc (Suc (Suc k))) ctx (AtScan, targets, st)
        = (Returned (cb i) (Some i), ?ts, store_Set st s (dest (targets ! i)))"
      by (simp only: firstAvailable_steps.simps scan chk wr firstAvailable_steps_Returned)
    moreover have "setSession ctx ?t st = Inr (True, store_Set st s (dest (targets ! i)))"
      using assms free by (auto simp: setSession_def)
    then have "firstAvailable_select ctx targets st 0
        = Inr (cb i, Some i, ?ts, store_Set st s (dest (targets ! i)))"
      by (simp add: sel)
    ultimately show ?thesis by blast
  qed
qed

text \<open>
  A request that takes its steps alone does what \<^verbatim>\<open>firstAvailableLBPolicy\<close> does: after
  five steps the call is over, with the policy's result.
\<close>

lemma firstAvailable_steps_alone:
  assumes "sessionFrom ctx = Inr s"
  shows "\<exists>c pick targets' st'.
           firstAvailable_steps 5 ctx (AtLookup, targets, st) = (Returned c pick, targets', st')
         \<and> firstAvailableLBPolicy ctx targets st = Inr (c, pick, targets', st')"
proof -
  let ?d = "store_Get st s"
  have five: "(5::nat) = Suc (Suc (Suc (Suc (Suc 0))))" by simp
  consider (nokey) "s = []"
    | (hit) i where "s \<noteq> []" "(if ?d \<noteq> [] then find_dest ?d targets else None) = Some i"
    | (miss) "s \<noteq> []" "(if ?d \<noteq> [] then find_dest ?d targets else None) = None"
    by (cases "if ?d \<noteq> [] then find_dest ?d targets else None") auto
  then show ?thesis
  proof cases
    case nokey
    have "firstAvailable_step ctx AtLookup (targets, st) = (AtScan, targets, st)"
      using assms nokey by simp
    then have a: "firstAvailable_steps 5 ctx (AtLookup, targets, st)
        = firstAvailable_steps (Suc (Suc (Suc (Suc 0)))) ctx (AtScan, targets, st)"
      by (simp only: five firstAvailable_steps.simps)
    have b: "firstAvailableLBPolicy ctx targets st = firstAvailable_select ctx targets st 0"
      using assms nokey by (simp add: firstAvailableLBPolicy_def getSession_def)
    from firstAvailable_steps_from_scan [OF assms, of "Suc 0" targets st] show ?thesis
      unfolding a b .
  next
    case hit
    have "firstAvailable_step ctx AtLookup (targets, st) = (Returned noop (Some i), targets, st)"
      using assms hit by (simp add: Let_def)
    then have "firstAvailable_steps 5 ctx (AtLookup, targets, st) = (Returned noop (Some i), targets, st)"
      by (simp only: five firstAvailable_steps.simps firstAvailable_steps_Returned)
    moreover have "firstAvailableLBPolicy ctx targets st = Inr (noop, Some i, targets, st)"
      using assms hit by (simp add: firstAvailableLBPolicy_def getSession_def Let_def)
    ultimately show ?thesis by blast
  next
    case miss
    have lk: "firstAvailable_step ctx AtLookup (targets, st) = (AtDelete ?d, targets, st)"
      using assms miss by (simp add: Let_def)
    have dl: "firstAvailable_step ctx (AtDelete ?d) (targets, st) = (AtScan, targets, store_Del st s ?d)"
      using assms by simp
    have a: "firstAvailable_steps 5 ctx (AtLookup, targets, st)
        = firstAvailable_steps (Suc (Suc (Suc 0))) ctx (AtScan, targets, store_Del st s ?d)"
      by (simp only: five firstAvailable_steps.simps lk dl)
    have b: "firstAvailableLBPolicy ctx targets st = firstAvailable_select ctx targets (store_Del st s ?d) 0"
      using assms miss by (simp add: firstAvailableLBPolicy_def getSession_def Let_def)
    from firstAvailable_steps_from_scan [OF assms, of 0 targets "store_Del st s ?d"] show ?thesis
      unfolding a b .
  qed
qed


text \<open>
  When the second request starts after the first has returned, it finds the binding and
  returns the first request's tracker.
\<close>

lemma one_after_the_other:
  "interleave (context_of (session_request ''abc'')) (context_of (session_request ''abc''))
     [True, True, True, True, True, False, False, False, False, False]
     (AtLookup, AtLookup, two_single, Map.empty)
   = (Returned (cb 0) (Some 0), Returned noop (Some 0),
      [backend ''10.0.0.1'' 0 1 1, backend ''10.0.0.2'' 0 0 1], [''abc'' \<mapsto> ''10.0.0.1''])"
  by (simp add: sessionFrom_session two_single_def backend_def store_Get_def store_Set_def Let_def
      store_Del_def)

text \<open>
  C3 against the code: two requests with the same new session key \<open>abc\<close> on two trackers
  with room for one request each.  Both look the key up and reserve a tracker (the first
  request the first tracker, the second the other one); both then read the key in
  \<^verbatim>\<open>setSession\<close> before either has written it, and both write.  Each returns its own
  tracker, and the binding is the one written last.
\<close>

theorem concurrent_first_requests_diverge:
  "interleave (context_of (session_request ''abc'')) (context_of (session_request ''abc''))
     [True, True, True, False, False, False, True, False, True, False]
     (AtLookup, AtLookup, two_single, Map.empty)
   = (Returned (cb 0) (Some 0), Returned (cb 1) (Some 1),
      [backend ''10.0.0.1'' 0 1 1, backend ''10.0.0.2'' 0 1 1], [''abc'' \<mapsto> ''10.0.0.2''])"
  by (simp add: sessionFrom_session two_single_def backend_def store_Get_def store_Set_def Let_def
      store_Del_def)

end
